theory Spec2Isabelle
  imports Complex_Main
begin

section \<open>Strings and characters\<close>

text \<open>
  A JavaScript string is a sequence of UTF-16 code units. The model uses \<open>string\<close>; a
  \<open>char\<close> stands for a code unit below 256. The class \<open>\s\<close> of the regular expressions
  and the characters removed by \<open>trim\<close> are, in that range, TAB, LF, VT, FF, CR, space
  and the no-break space; \<open>\d\<close> is \<open>0\<close> to \<open>9\<close>.

\<close>

definition is_digit :: "char \<Rightarrow> bool" where
  "is_digit c = (48 \<le> (of_char c :: nat) \<and> (of_char c :: nat) \<le> 57)"

definition is_space :: "char \<Rightarrow> bool" where
  "is_space c = ((of_char c :: nat) \<in> {9, 10, 11, 12, 13, 32, 160})"

definition digit_val :: "char \<Rightarrow> nat" where
  "digit_val c = of_char c - 48"

definition digit_char :: "nat \<Rightarrow> char" where
  "digit_char d = ''0123456789'' ! d"

text \<open>Upper-casing of the ASCII letters: the canonicalisation of the \<open>i\<close> flag.\<close>

definition to_upper :: "char \<Rightarrow> char" where
  "to_upper c =
     (case map_of (zip ''abcdefghijklmnopqrstuvwxyz'' ''ABCDEFGHIJKLMNOPQRSTUVWXYZ'') c of
        Some u \<Rightarrow> u | None \<Rightarrow> c)"

text \<open>\<open>String.prototype.trim\<close>.\<close>

definition trim :: "string \<Rightarrow> string" where
  "trim s = rev (dropWhile is_space (rev (dropWhile is_space s)))"

text \<open>\<open>s.replace(/\s+/g, " ")\<close>: every maximal run of white space becomes one space.\<close>

function collapse_ws :: "string \<Rightarrow> string" where
  "collapse_ws [] = []"
| "collapse_ws (c # cs) =
     (if is_space c then CHR '' '' # collapse_ws (dropWhile is_space cs)
      else c # collapse_ws cs)"
  by pat_completeness auto
termination
  by (relation "measure length") (auto simp: length_dropWhile_le less_Suc_eq_le)

text \<open>\<open>s.split(sep)\<close> for a separator of one character.\<close>

fun split_on :: "char \<Rightarrow> string \<Rightarrow> string list" where
  "split_on sep [] = [[]]"
| "split_on sep (c # cs) =
     (if c = sep then [] # split_on sep cs
      else (case split_on sep cs of p # ps \<Rightarrow> (c # p) # ps | [] \<Rightarrow> [[c]]))"

text \<open>The decimal numeral of an integer: \<open>String(y)\<close> for a year \<open>y\<close>.\<close>

fun digits_of :: "nat \<Rightarrow> string" where
  "digits_of n = (if n < 10 then [digit_char n] else digits_of (n div 10) @ [digit_char (n mod 10)])"

declare digits_of.simps [simp del]

definition String_of_int :: "int \<Rightarrow> string" where
  "String_of_int i = (if i < 0 then CHR ''-'' # digits_of (nat (- i)) else digits_of (nat i))"

definition digits_value :: "string \<Rightarrow> nat" where
  "digits_value ds = foldl (\<lambda>acc c. 10 * acc + digit_val c) 0 ds"

section \<open>Numbers\<close>

text \<open>
  A JavaScript number is an IEEE 754 double. Every number the program holds in a
  variable is an integer, an infinity or \<open>NaN\<close>: \<open>Fin n\<close> is the double whose value is the
  integer \<open>n\<close>. The program never produces a negative zero, and the only value that is
  not an integer, the quotient \<open>cents / 100\<close>, is used once, inside \<open>centsToUSD\<close>.

  \<open>round_double x\<close> is the double nearest to the rational \<open>x\<close>, ties going to the even
  significand: \<open>scale\<close> brings \<open>\<bar>x\<bar>\<close> to \<open>a * 2 ^ q\<close> with \<open>2 ^ 52 \<le> a < 2 ^ 53\<close> (or
  \<open>q = - 1074\<close> for a subnormal), and \<open>a\<close> is rounded to an integer. A result of
  magnitude \<open>2 ^ 1024\<close> is an overflow, which \<open>rnd\<close> turns into an infinity.
\<close>

datatype number = Fin int | PInf | NInf | NaN

function scale :: "rat \<Rightarrow> int \<Rightarrow> rat \<times> int" where
  "scale a q =
     (if a < 2 ^ 52 \<and> - 1074 < q then scale (2 * a) (q - 1)
      else if 2 ^ 53 \<le> a then scale (a / 2) (q + 1)
      else (a, q))"
  by pat_completeness auto
termination
proof (relation "measure (\<lambda>(a, q). if a < 2 ^ 52 then nat (q + 1074)
                                  else if 2 ^ 53 \<le> a then nat \<lfloor>a\<rfloor> else 0)", goal_cases)
  case 1
  show ?case by simp
next
  case (2 a q)
  then show ?case by auto
next
  case (3 a q)
  then have a: "2 ^ 53 \<le> a" by simp
  have "a / 2 \<le> a - 1" using a by simp
  then have "\<lfloor>a / 2\<rfloor> \<le> \<lfloor>a - 1\<rfloor>" by (rule floor_mono)
  then have "\<lfloor>a / 2\<rfloor> < \<lfloor>a\<rfloor>" by simp
  moreover have "0 < \<lfloor>a\<rfloor>" using a by (simp add: floor_less_iff less_le_trans [of 0 "2 ^ 53" a])
  ultimately show ?case using a by auto
qed

declare scale.simps [simp del]

definition rne :: "rat \<Rightarrow> int" where
  "rne x = (let f = \<lfloor>x\<rfloor>; r = x - of_int f
            in if r < 1 / 2 then f else if 1 / 2 < r then f + 1 else if even f then f else f + 1)"

definition pow2 :: "int \<Rightarrow> rat" where
  "pow2 q = (if 0 \<le> q then 2 ^ nat q else 1 / 2 ^ nat (- q))"

definition round_double :: "rat \<Rightarrow> rat" where
  "round_double x =
     (if x = 0 then 0
      else (let (a, q) = scale \<bar>x\<bar> 0 in sgn x * of_int (rne a) * pow2 q))"

definition rnd :: "int \<Rightarrow> number" where
  "rnd n = (let v = round_double (of_int n)
            in if 2 ^ 1024 \<le> \<bar>v\<bar> then (if n < 0 then NInf else PInf) else Fin \<lfloor>v\<rfloor>)"

text \<open>The operators \<open>*\<close>, \<open>+\<close>, \<open>-\<close> and \<open><\<close> on numbers.\<close>

definition sign :: "number \<Rightarrow> int" where
  "sign x = (case x of Fin a \<Rightarrow> sgn a | PInf \<Rightarrow> 1 | NInf \<Rightarrow> - 1 | NaN \<Rightarrow> 0)"

definition jmul :: "number \<Rightarrow> number \<Rightarrow> number" where
  "jmul x y =
     (case (x, y) of
        (Fin a, Fin b) \<Rightarrow> rnd (a * b)
      | _ \<Rightarrow> if x = NaN \<or> y = NaN \<or> sign x * sign y = 0 then NaN
             else if 0 < sign x * sign y then PInf else NInf)"

definition jadd :: "number \<Rightarrow> number \<Rightarrow> number" where
  "jadd x y =
     (case (x, y) of
        (Fin a, Fin b) \<Rightarrow> rnd (a + b)
      | (Fin a, _) \<Rightarrow> y
      | (_, Fin b) \<Rightarrow> x
      | _ \<Rightarrow> if x = y then x else NaN)"

definition jneg :: "number \<Rightarrow> number" where
  "jneg x = (case x of Fin a \<Rightarrow> Fin (- a) | PInf \<Rightarrow> NInf | NInf \<Rightarrow> PInf | NaN \<Rightarrow> NaN)"

definition jsub :: "number \<Rightarrow> number \<Rightarrow> number" where
  "jsub x y = jadd x (jneg y)"

definition jless :: "number \<Rightarrow> number \<Rightarrow> bool" where
  "jless x y =
     (case (x, y) of
        (Fin a, Fin b) \<Rightarrow> a < b
      | (NaN, _) \<Rightarrow> False
      | (_, NaN) \<Rightarrow> False
      | (NInf, _) \<Rightarrow> y \<noteq> NInf
      | (_, PInf) \<Rightarrow> x \<noteq> PInf
      | _ \<Rightarrow> False)"

text \<open>\<open>x || d\<close> for a number \<open>x\<close>: \<open>NaN\<close> and \<open>0\<close> are falsy.\<close>

definition num_or :: "number \<Rightarrow> number \<Rightarrow> number" where
  "num_or x d = (if x = NaN \<or> x = Fin 0 then d else x)"

text \<open>
  \<open>parseInt(s, 10)\<close>: leading white space and one sign are skipped, the longest prefix of
  digits is read, and the result is \<open>NaN\<close> when there is no digit; otherwise it is the
  double nearest to the value of the digits.
\<close>

definition parseInt :: "string \<Rightarrow> number" where
  "parseInt s =
     (let t = dropWhile is_space s;
          neg = (t \<noteq> [] \<and> hd t = CHR ''-'');
          u = (if t \<noteq> [] \<and> (hd t = CHR ''-'' \<or> hd t = CHR ''+'') then tl t else t);
          ds = takeWhile is_digit u
      in if ds = [] then NaN
         else rnd (if neg then - int (digits_value ds) else int (digits_value ds)))"

text \<open>
  \<open>String(x)\<close> for a number. The numeral of a positive \<open>n\<close> has the fewest significant
  digits among the decimals that read back as the same double, and among those it is
  the one nearest to \<open>n\<close> (of two equally near, the one whose last digit is even):
  \<open>shortest n d\<close> looks for it among the multiples of \<open>10 ^ d\<close>, then of \<open>10 ^ (d - 1)\<close>,
  and so on. A value of \<open>10 ^ 21\<close> or more is written with an exponent.
\<close>

fun shortest :: "nat \<Rightarrow> nat \<Rightarrow> nat" where
  "shortest n 0 = n"
| "shortest n (Suc d) =
     (let p = 10 ^ Suc d; lo = (n div p) * p; hi = lo + p;
          okl = (0 < lo \<and> rnd (int lo) = Fin (int n));
          okh = (rnd (int hi) = Fin (int n))
      in if okl \<and> okh then (if n - lo < hi - n \<or> (n - lo = hi - n \<and> even (n div p)) then lo else hi)
         else if okl then lo
         else if okh then hi
         else shortest n d)"

definition exponential :: "nat \<Rightarrow> string" where
  "exponential v =
     (let ds = digits_of v;
          m = rev (dropWhile (\<lambda>c. c = CHR ''0'') (rev ds))
      in hd m # (if tl m = [] then [] else CHR ''.'' # tl m) @ ''e+'' @ digits_of (length ds - 1))"

definition Number_toString :: "number \<Rightarrow> string" where
  "Number_toString x =
     (case x of
        NaN \<Rightarrow> ''NaN''
      | PInf \<Rightarrow> ''Infinity''
      | NInf \<Rightarrow> ''-Infinity''
      | Fin i \<Rightarrow>
          (let n = nat \<bar>i\<bar>;
               v = shortest n (length (digits_of n) - 1)
           in (if i < 0 then [CHR ''-''] else []) @
              (if v < 10 ^ 21 then digits_of v else exponential v)))"

text \<open>
  \<open>x.toFixed(2)\<close> for a finite \<open>x\<close>: the integer \<open>n\<close> for which \<open>n / 100\<close> is nearest to
  \<open>\<bar>x\<bar>\<close> (the larger of two), written with a point before its last two digits; a value
  of \<open>10 ^ 21\<close> or more is written as \<open>String\<close> writes it.
\<close>

definition toFixed2 :: "rat \<Rightarrow> string" where
  "toFixed2 x =
     (let a = \<bar>x\<bar>
      in (if x < 0 then [CHR ''-''] else []) @
         (if 10 ^ 21 \<le> a then Number_toString (Fin \<lfloor>a\<rfloor>)
          else (let n = nat \<lfloor>a * 100 + 1 / 2\<rfloor>
                in digits_of (n div 100) @
                   [CHR ''.'', digit_char (n mod 100 div 10), digit_char (n mod 10)])))"

section \<open>Regular expressions\<close>

text \<open>
  The backtracking matcher of \<open>RegExp\<close>. \<open>ms r s\<close> lists, in the order in which the
  matcher tries them, the ways \<open>r\<close> matches a prefix of \<open>s\<close>: each is the rest of the
  input together with the capture groups set on the way (latest first). The first
  element is the match JavaScript reports. A greedy star tries another iteration first
  and rejects an iteration that consumes nothing.
\<close>

datatype re =
    Atom "char \<Rightarrow> bool"
  | Eps
  | Seq re re
  | Alt re re
  | Star re
  | Grp nat re

type_synonym caps = "(nat \<times> string) list"

function ms :: "re \<Rightarrow> string \<Rightarrow> (string \<times> caps) list" where
  "ms (Atom p) s = (case s of [] \<Rightarrow> [] | c # t \<Rightarrow> if p c then [(t, [])] else [])"
| "ms Eps s = [(s, [])]"
| "ms (Seq a b) s =
     concat (map (\<lambda>x. map (\<lambda>y. (fst y, snd y @ snd x)) (ms b (fst x))) (ms a s))"
| "ms (Alt a b) s = ms a s @ ms b s"
| "ms (Star r) s =
     concat (map (\<lambda>x. if length (fst x) < length s
                       then map (\<lambda>y. (fst y, snd y @ snd x)) (ms (Star r) (fst x))
                       else []) (ms r s)) @ [(s, [])]"
| "ms (Grp i r) s = map (\<lambda>x. (fst x, (i, take (length s - length (fst x)) s) # snd x)) (ms r s)"
  by pat_completeness auto
termination
  by (relation "measures [\<lambda>(r, s). size r, \<lambda>(r, s). length s]") auto

text \<open>Derived forms: \<open>r?\<close>, \<open>r+\<close>, \<open>r{n}\<close>, \<open>r{m,n}\<close>, a literal, a literal under the \<open>i\<close> flag.\<close>

definition Opt :: "re \<Rightarrow> re" where
  "Opt r = Alt r Eps"

definition Plus :: "re \<Rightarrow> re" where
  "Plus r = Seq r (Star r)"

fun Rep :: "re \<Rightarrow> nat \<Rightarrow> nat \<Rightarrow> re" where
  "Rep r 0 0 = Eps"
| "Rep r 0 (Suc n) = Opt (Seq r (Rep r 0 n))"
| "Rep r (Suc m) n = Seq r (Rep r m (n - 1))"

declare Rep.simps [simp del]

definition Chr :: "char \<Rightarrow> re" where
  "Chr c = Atom (\<lambda>x. x = c)"

fun Lit_i :: "string \<Rightarrow> re" where
  "Lit_i [] = Eps"
| "Lit_i [c] = Atom (\<lambda>x. to_upper x = to_upper c)"
| "Lit_i (c # cs) = Seq (Atom (\<lambda>x. to_upper x = to_upper c)) (Lit_i cs)"

text \<open>
  \<open>exec_at r s\<close> is the match of \<open>r\<close> at the start of \<open>s\<close>: the matched text \<open>m[0]\<close>, the
  captures and the rest. \<open>search r s\<close> is \<open>s.match(r)\<close> for a pattern without \<open>^\<close>: the
  match at the leftmost position that has one.
\<close>

record rmatch =
  m0 :: string
  groups :: caps
  rest :: string

definition exec_at :: "re \<Rightarrow> string \<Rightarrow> rmatch option" where
  "exec_at r s = (case ms r s of [] \<Rightarrow> None
     | x # _ \<Rightarrow> Some \<lparr>m0 = take (length s - length (fst x)) s, groups = snd x, rest = fst x\<rparr>)"

fun search :: "re \<Rightarrow> string \<Rightarrow> rmatch option" where
  "search r [] = exec_at r []"
| "search r (c # cs) = (case exec_at r (c # cs) of Some m \<Rightarrow> Some m | None \<Rightarrow> search r cs)"

definition group :: "rmatch \<Rightarrow> nat \<Rightarrow> string option" where
  "group m i = map_of (groups m) i"

section \<open>Currency helpers\<close>

text \<open>The pattern \<open>/\$?\s*(\d{1,3}(,\d{3})*|\d+)\.\d{2}/\<close>.\<close>

definition usd_re :: re where
  "usd_re =
     Seq (Opt (Chr CHR ''$''))
      (Seq (Star (Atom is_space))
        (Seq (Grp 1 (Alt (Seq (Rep (Atom is_digit) 1 3)
                              (Star (Grp 2 (Seq (Chr CHR '','') (Rep (Atom is_digit) 3 3)))))
                         (Plus (Atom is_digit))))
          (Seq (Chr CHR ''.'') (Rep (Atom is_digit) 2 2))))"

text \<open>
  \<open>usdToCents\<close>. The argument is a string or \<open>null\<close> (\<open>None\<close>); \<open>null\<close> and the empty
  string are falsy.
\<close>

definition usdToCents :: "string option \<Rightarrow> number" where
  "usdToCents v =
     (case v of None \<Rightarrow> Fin 0
      | Some str \<Rightarrow>
          if str = [] then Fin 0
          else (let s = trim (collapse_ws str) in
            case search usd_re s of
              None \<Rightarrow> Fin 0
            | Some m \<Rightarrow>
                (let normalized = filter (\<lambda>c. is_digit c \<or> c = CHR ''.'') (m0 m);
                     parts = split_on CHR ''.'' normalized;
                     dollars = hd parts;
                     cents = (if 1 < length parts then parts ! 1 else ''00'')
                 in jadd (jmul (num_or (parseInt dollars) (Fin 0)) (Fin 100))
                         (num_or (parseInt cents) (Fin 0)))))"

text \<open>
  \<open>centsToUSD\<close> is \<open>(cents / 100).toFixed(2)\<close>: the quotient is rounded to a double
  before it is written. An infinity or \<open>NaN\<close> divided by 100 is itself, and \<open>toFixed\<close>
  writes it as \<open>String\<close> does.
\<close>

definition centsToUSD :: "number \<Rightarrow> string" where
  "centsToUSD cents =
     (case cents of
        Fin c \<Rightarrow> toFixed2 (round_double (of_int c / 100))
      | _ \<Rightarrow> Number_toString cents)"

section \<open>Errors and the page\<close>

text \<open>
  A thrown exception is a value \<open>Inl (Error msg)\<close> of a result \<open>error + 'a\<close>; \<open>try_catch\<close>
  is \<open>try { ... } catch { ... }\<close>.
\<close>

datatype error = Error string

definition bindE :: "error + 'a \<Rightarrow> ('a \<Rightarrow> error + 'b) \<Rightarrow> error + 'b" where
  "bindE x f = (case x of Inl e \<Rightarrow> Inl e | Inr v \<Rightarrow> f v)"

definition try_catch :: "error + 'a \<Rightarrow> (error \<Rightarrow> error + 'a) \<Rightarrow> error + 'a" where
  "try_catch body handler = (case body of Inl e \<Rightarrow> handler e | Inr v \<Rightarrow> Inr v)"

text \<open>
  An element handle of the browser: what reading its \<open>textContent\<close> in the page gives,
  and what \<open>el.$(selector)\<close> and \<open>el.$$(selector)\<close> give. Each of them can throw.
\<close>

datatype element = Element
  (textContent: "error + string")
  (query: "string \<Rightarrow> error + element option")
  (queryAll: "string \<Rightarrow> error + element list")

definition ORDER_DATE :: string where
  "ORDER_DATE = ''.order-header .a-fixed-right-grid-col.a-col-left .a-row .a-column.a-span3 .a-row span.aok-break-word''"

definition ORDER_PRICE :: string where
  "ORDER_PRICE = ''.order-header .a-fixed-right-grid-col.a-col-left .a-row .a-column.a-span2 .a-row span.aok-break-word''"

definition ORDER_SHIPMENTS :: string where
  "ORDER_SHIPMENTS = ''.a-box.shipment''"

definition SHIPMENT_STATUS :: string where
  "SHIPMENT_STATUS = ''.a-box-inner .a-row.shipment-top-row.js-shipment-info-container''"

definition ARTICLE_SHIPMENT :: string where
  "ARTICLE_SHIPMENT = ''.a-box-inner .a-fixed-right-grid.a-spacing-top-medium .a-fixed-right-grid-inner.a-grid-vertical-align.a-grid-top .a-fixed-right-grid-col.a-col-left .a-row .a-fixed-left-grid .a-fixed-left-grid-inner''"

definition ARTICLE_NAME :: string where
  "ARTICLE_NAME = ''.a-fixed-left-grid-col.a-col-right div:nth-of-type(1).a-row''"

definition ARTICLE_PRICE :: string where
  "ARTICLE_PRICE = ''.a-fixed-left-grid-col.a-col-right div.a-row .a-size-small.a-color-price''"

text \<open>\<open>textOrEmpty\<close>: the whole body is inside \<open>try\<close>, and the handler returns \<open>""\<close>.\<close>

definition textOrEmpty :: "element \<Rightarrow> string \<Rightarrow> error + string" where
  "textOrEmpty el selector =
     try_catch
       (bindE (query el selector) (\<lambda>child.
          case child of
            None \<Rightarrow> Inr []
          | Some c \<Rightarrow>
              bindE (textContent c) (\<lambda>t.
                let txt = trim t in Inr (if txt \<noteq> [] then txt else []))))
       (\<lambda>e. Inr [])"

section \<open>The years to scrape\<close>

text \<open>
  \<open>getYearsFromArg\<close> reads \<open>process.argv[2]\<close> (\<open>None\<close> when the argument is absent; the
  empty string is falsy too) and the current year of the clock.
\<close>

function years_from :: "int \<Rightarrow> string list \<Rightarrow> string list" where
  "years_from y years =
     (if 2000 \<le> y then years_from (y - 1) (years @ [String_of_int y]) else years)"
  by pat_completeness auto
termination
  by (relation "measure (\<lambda>(y, years). nat (y - 1999))") auto

declare years_from.simps [simp del]

definition getYearsFromArg :: "string option \<Rightarrow> int \<Rightarrow> string list" where
  "getYearsFromArg argv2 current =
     (case argv2 of
        Some a \<Rightarrow> if a \<noteq> [] then [a] else years_from current []
      | None \<Rightarrow> years_from current [])"

section \<open>Waiting for the sign-in\<close>

text \<open>
  The loop of \<open>waitUntil\<close> observes the world once per iteration: \<open>checkFn t\<close> is what the
  awaited check gives at the \<open>t\<close>-th observation (it may throw), \<open>now t\<close> is the reading
  of \<open>Date.now()\<close> that follows it, and \<open>sleep\<close> leads to the next observation. The loop has
  no bound of its own, so not returning is the value \<open>None\<close>. The result carries the
  index of the last observation.
\<close>

definition truthy :: "error + bool \<Rightarrow> bool" where
  "truthy r = (case r of Inl e \<Rightarrow> False | Inr b \<Rightarrow> b)"

partial_function (option) waitUntil_loop ::
  "(nat \<Rightarrow> error + bool) \<Rightarrow> (nat \<Rightarrow> int) \<Rightarrow> int \<Rightarrow> int \<Rightarrow> nat \<Rightarrow> ((error + bool) \<times> nat) option" where
  "waitUntil_loop checkFn now start timeoutMs t =
     (if truthy (try_catch (checkFn t) (\<lambda>e. Inr False)) then Some (Inr True, t)
      else if timeoutMs < now t - start
        then Some (Inl (Error ''Timed out waiting for condition''), t)
      else waitUntil_loop checkFn now start timeoutMs (Suc t))"

definition waitUntil ::
  "(nat \<Rightarrow> error + bool) \<Rightarrow> (nat \<Rightarrow> int) \<Rightarrow> int \<Rightarrow> nat \<Rightarrow> ((error + bool) \<times> nat) option" where
  "waitUntil checkFn now timeoutMs t =
     (let start = now t in waitUntil_loop checkFn now start timeoutMs (Suc t))"

section \<open>The CSV file\<close>

text \<open>
  The output file is its content. \<open>fsp.appendFile\<close> adds to the end, \<open>fsp.writeFile\<close>
  replaces the content.
\<close>

definition join :: "string \<Rightarrow> string list \<Rightarrow> string" where
  "join sep xs = (case xs of [] \<Rightarrow> [] | x # ys \<Rightarrow> x @ concat (map (\<lambda>y. sep @ y) ys))"

definition quote_field :: "string \<Rightarrow> string" where
  "quote_field s =
     [CHR 0x22] @ concat (map (\<lambda>c. if c = CHR 0x22 then [CHR 0x22, CHR 0x22] else [c]) s) @ [CHR 0x22]"

definition csv_row :: "string list \<Rightarrow> string" where
  "csv_row rowData = join '';'' (map quote_field rowData) @ [CHR 0x0A]"

definition writeCSVRow :: "string \<Rightarrow> string list \<Rightarrow> string" where
  "writeCSVRow csv rowData = csv @ csv_row rowData"

definition csv_header :: string where
  \<open>csv_header = ''"Date";"Shipment Status";"Article Count";"Article Name";"Single Price";"Total Price";"Tags"'' @ [CHR 0x0A]\<close>

section \<open>Orders, shipments and items\<close>

text \<open>The pattern \<open>/^(\d+)\s+(of|x)\s+/i\<close>; the \<open>^\<close> is the use of \<open>exec_at\<close>.\<close>

definition quantity_re :: re where
  "quantity_re =
     Seq (Grp 1 (Plus (Atom is_digit)))
      (Seq (Plus (Atom is_space))
        (Seq (Grp 2 (Alt (Lit_i ''of'') (Lit_i ''x'')))
          (Plus (Atom is_space))))"

text \<open>The pattern \<open>/(Return|Returned|Refund|Refunded|Replacement)/i\<close>.\<close>

definition returnedRegex :: re where
  "returnedRegex =
     Grp 1 (Alt (Lit_i ''Return'') (Alt (Lit_i ''Returned'') (Alt (Lit_i ''Refund'')
       (Alt (Lit_i ''Refunded'') (Lit_i ''Replacement'')))))"

definition regex_test :: "re \<Rightarrow> string \<Rightarrow> bool" where
  "regex_test r s = (search r s \<noteq> None)"

text \<open>
  The quantity detection of the item loop: \<open>articleCount\<close> starts at 1; on a match it
  becomes \<open>parseInt(mCount[1], 10) || 1\<close> and the matched prefix is removed from the name.
\<close>

definition quantity_detection :: "string \<Rightarrow> number \<times> string" where
  "quantity_detection articleName =
     (case exec_at quantity_re articleName of
        None \<Rightarrow> (Fin 1, articleName)
      | Some mCount \<Rightarrow>
          (num_or (case group mCount 1 of None \<Rightarrow> NaN | Some g \<Rightarrow> parseInt g) (Fin 1),
           rest mCount))"

definition article_name :: "string \<Rightarrow> string" where
  "article_name txt =
     (if txt \<noteq> [] then map (\<lambda>c. if c = CHR '';'' then CHR '','' else c) (take 80 txt)
      else ''ERROR: selector_article_name not found'')"

text \<open>
  The result of a step that appends to the file is the value or the exception, and the
  file as it is then: rows written before an exception stay written. The lines printed
  on the console are left out.
\<close>

type_synonym 'a io = "(error + 'a) \<times> string"

record totals =
  shipmentTotal :: number
  shipmentTotalAfterReturns :: number

fun process_items ::
  "string \<Rightarrow> string \<Rightarrow> bool \<Rightarrow> element list \<Rightarrow> totals \<Rightarrow> string \<Rightarrow> totals io" where
  "process_items orderDate shipmentStatus shipmentIsReturn [] tot csv = (Inr tot, csv)"
| "process_items orderDate shipmentStatus shipmentIsReturn (itemEl # itemEls) tot csv =
     (case textOrEmpty itemEl ARTICLE_NAME of
        Inl e \<Rightarrow> (Inl e, csv)
      | Inr txt \<Rightarrow>
          (let (articleCount, articleName) = quantity_detection (article_name txt) in
           case textOrEmpty itemEl ARTICLE_PRICE of
             Inl e \<Rightarrow> (Inl e, csv)
           | Inr priceText \<Rightarrow>
               (let singleCents = usdToCents (Some priceText);
                    lineCents = jmul singleCents articleCount;
                    tot' = \<lparr>shipmentTotal = jadd (shipmentTotal tot) lineCents,
                            shipmentTotalAfterReturns =
                              (if \<not> shipmentIsReturn
                               then jadd (shipmentTotalAfterReturns tot) lineCents
                               else shipmentTotalAfterReturns tot)\<rparr>;
                    rowData = [orderDate, shipmentStatus, Number_toString articleCount, articleName,
                               centsToUSD singleCents,
                               centsToUSD (if shipmentIsReturn then Fin 0 else lineCents), []]
                in process_items orderDate shipmentStatus shipmentIsReturn itemEls tot'
                     (writeCSVRow csv rowData))))"

definition shipment_status :: "string \<Rightarrow> string" where
  "shipment_status rawStatus = trim (hd (split_on (CHR 0x0A) rawStatus))"

definition processShipment :: "element \<Rightarrow> string \<Rightarrow> string \<Rightarrow> totals io" where
  "processShipment shipEl orderDate csv =
     (case textOrEmpty shipEl SHIPMENT_STATUS of
        Inl e \<Rightarrow> (Inl e, csv)
      | Inr rawStatus \<Rightarrow>
          (let shipmentStatus = shipment_status rawStatus;
               shipmentIsReturn = regex_test returnedRegex shipmentStatus
           in case queryAll shipEl ARTICLE_SHIPMENT of
                Inl e \<Rightarrow> (Inl e, csv)
              | Inr itemEls \<Rightarrow>
                  process_items orderDate shipmentStatus shipmentIsReturn itemEls
                    \<lparr>shipmentTotal = Fin 0, shipmentTotalAfterReturns = Fin 0\<rparr> csv))"

text \<open>\<open>calculateAndWriteShippingCosts\<close> returns the shipping cost and the file.\<close>

definition calculateAndWriteShippingCosts ::
  "string \<Rightarrow> string \<Rightarrow> number \<Rightarrow> number \<Rightarrow> number \<times> string" where
  "calculateAndWriteShippingCosts csv orderDate orderPriceCents orderArticlePricesTotal =
     (let d = jsub orderPriceCents orderArticlePricesTotal;
          shipmentCostCents = (if jless d (Fin 0) then Fin 0 else d)
      in if jless (Fin 0) shipmentCostCents
         then (shipmentCostCents,
               writeCSVRow csv [orderDate, [], ''1'', ''shipment'',
                 centsToUSD shipmentCostCents, centsToUSD shipmentCostCents, []])
         else (shipmentCostCents, csv))"

fun process_shipments ::
  "string \<Rightarrow> element list \<Rightarrow> number \<times> number \<Rightarrow> string \<Rightarrow> (number \<times> number) io" where
  "process_shipments orderDate [] acc csv = (Inr acc, csv)"
| "process_shipments orderDate (shipEl # shipmentEls) (orderArticlePricesTotal, orderTotalPaidAfterReturns) csv =
     (case processShipment shipEl orderDate csv of
        (Inl e, csv') \<Rightarrow> (Inl e, csv')
      | (Inr tot, csv') \<Rightarrow>
          process_shipments orderDate shipmentEls
            (jadd orderArticlePricesTotal (shipmentTotal tot),
             jadd orderTotalPaidAfterReturns (shipmentTotalAfterReturns tot)) csv')"

definition processOrder :: "element \<Rightarrow> string \<Rightarrow> number io" where
  "processOrder orderEl csv =
     (case textOrEmpty orderEl ORDER_DATE of
        Inl e \<Rightarrow> (Inl e, csv)
      | Inr d \<Rightarrow>
          (let orderDate = (if d \<noteq> [] then d else ''ERROR: selector_order_date not found'') in
           case textOrEmpty orderEl ORDER_PRICE of
             Inl e \<Rightarrow> (Inl e, csv)
           | Inr orderPriceText \<Rightarrow>
               (let orderPriceCents = usdToCents (Some orderPriceText) in
                case queryAll orderEl ORDER_SHIPMENTS of
                  Inl e \<Rightarrow> (Inl e, csv)
                | Inr shipmentEls \<Rightarrow>
                    (case process_shipments orderDate shipmentEls (Fin 0, Fin 0) csv of
                       (Inl e, csv') \<Rightarrow> (Inl e, csv')
                     | (Inr (orderArticlePricesTotal, orderTotalPaidAfterReturns), csv') \<Rightarrow>
                         (let (shipmentCostCents, csv'') =
                                calculateAndWriteShippingCosts csv' orderDate orderPriceCents
                                  orderArticlePricesTotal
                          in (Inr (jadd orderTotalPaidAfterReturns shipmentCostCents), csv''))))))"

section \<open>Notions used in the proofs\<close>

text \<open>
  \<open>rs r s\<close> is \<open>ms r s\<close> without the captures. The pattern of \<open>usdToCents\<close> is cut into
  its parts: the integer part, a group of thousands, the decimals, and what follows the
  optional \<open>$\<close> and the white space. \<open>skip s\<close> is \<open>s\<close> after that optional \<open>$\<close> and white
  space.
\<close>

definition rs :: "re \<Rightarrow> string \<Rightarrow> string list" where
  "rs r s = map fst (ms r s)"

definition usd_tail :: re where
  "usd_tail = Seq (Chr CHR ''.'') (Rep (Atom is_digit) 2 2)"

definition usd_group :: re where
  "usd_group = Grp 2 (Seq (Chr CHR '','') (Rep (Atom is_digit) 3 3))"

definition usd_int :: re where
  "usd_int = Grp 1 (Alt (Seq (Rep (Atom is_digit) 1 3) (Star usd_group)) (Plus (Atom is_digit)))"

definition usd_D :: re where
  "usd_D = Seq usd_int usd_tail"

definition skip :: "string \<Rightarrow> string" where
  "skip s = dropWhile is_space (case s of [] \<Rightarrow> [] | c # t \<Rightarrow> if c = CHR ''$'' then t else s)"

definition kw_re :: re where
  "kw_re = Grp 2 (Alt (Lit_i ''of'') (Lit_i ''x''))"

definition is_kw :: "string \<Rightarrow> bool" where
  "is_kw kw = (map to_upper kw = ''OF'' \<or> map to_upper kw = ''X'')"

definition q_tail :: re where
  "q_tail = Seq kw_re (Plus (Atom is_space))"

definition q_mid :: re where
  "q_mid = Seq (Plus (Atom is_space)) q_tail"

definition text_of :: "element \<Rightarrow> string \<Rightarrow> string" where
  "text_of el selector = (case textOrEmpty el selector of Inr s \<Rightarrow> s | Inl e \<Rightarrow> [])"

definition item_count :: "element \<Rightarrow> number" where
  "item_count itemEl = fst (quantity_detection (article_name (text_of itemEl ARTICLE_NAME)))"

definition item_name :: "element \<Rightarrow> string" where
  "item_name itemEl = snd (quantity_detection (article_name (text_of itemEl ARTICLE_NAME)))"

definition item_single :: "element \<Rightarrow> number" where
  "item_single itemEl = usdToCents (Some (text_of itemEl ARTICLE_PRICE))"

definition item_line :: "element \<Rightarrow> number" where
  "item_line itemEl = jmul (item_single itemEl) (item_count itemEl)"

definition item_row :: "string \<Rightarrow> string \<Rightarrow> bool \<Rightarrow> element \<Rightarrow> string list" where
  "item_row orderDate status ret itemEl =
     [orderDate, status, Number_toString (item_count itemEl), item_name itemEl,
      centsToUSD (item_single itemEl), centsToUSD (if ret then Fin 0 else item_line itemEl), []]"

definition shipment_items :: "element \<Rightarrow> element list" where
  "shipment_items shipEl = (case queryAll shipEl ARTICLE_SHIPMENT of Inr els \<Rightarrow> els | Inl e \<Rightarrow> [])"

definition shipment_state :: "element \<Rightarrow> string" where
  "shipment_state shipEl = shipment_status (text_of shipEl SHIPMENT_STATUS)"

definition shipment_returned :: "element \<Rightarrow> bool" where
  "shipment_returned shipEl = regex_test returnedRegex (shipment_state shipEl)"

definition shipment_sum :: "element \<Rightarrow> number" where
  "shipment_sum shipEl = foldl jadd (Fin 0) (map item_line (shipment_items shipEl))"

definition shipment_paid :: "element \<Rightarrow> number" where
  "shipment_paid shipEl = (if shipment_returned shipEl then Fin 0 else shipment_sum shipEl)"

definition shipment_rows :: "string \<Rightarrow> element \<Rightarrow> string list list" where
  "shipment_rows orderDate shipEl =
     map (item_row orderDate (shipment_state shipEl) (shipment_returned shipEl)) (shipment_items shipEl)"

definition order_date :: "element \<Rightarrow> string" where
  "order_date orderEl =
     (if text_of orderEl ORDER_DATE \<noteq> [] then text_of orderEl ORDER_DATE
      else ''ERROR: selector_order_date not found'')"

definition order_price :: "element \<Rightarrow> number" where
  "order_price orderEl = usdToCents (Some (text_of orderEl ORDER_PRICE))"

definition shipping_row :: "string \<Rightarrow> number \<Rightarrow> string list" where
  "shipping_row orderDate cost =
     [orderDate, [], ''1'', ''shipment'', centsToUSD cost, centsToUSD cost, []]"





text \<open>
  \<open>is_double x\<close>: \<open>x\<close> is a value a variable of the program can hold, that is, a finite \<open>x\<close>
  is not changed by rounding. \<open>shipping_cost p t\<close> is the difference \<open>p - t\<close> of the program,
  replaced by 0 when it is negative.
\<close>

definition is_double :: "number \<Rightarrow> bool" where
  "is_double x = (case x of Fin a \<Rightarrow> rnd a = Fin a | _ \<Rightarrow> True)"

definition shipping_cost :: "number \<Rightarrow> number \<Rightarrow> number" where
  "shipping_cost p t = (if jless (jsub p t) (Fin 0) then Fin 0 else jsub p t)"

text \<open>
  What can stand before a dollar amount without being taken for one: \<open>amt_char\<close> is a
  digit or a comma, \<open>dot2 s\<close> says that \<open>s\<close> starts with a point and two digits, and
  \<open>no_cents_in pre r\<close> that no point of \<open>pre\<close> is followed by two digits in \<open>pre @ r\<close>.
  \<open>nonneg x\<close>: the number \<open>x\<close> is a non-negative integer or \<open>Infinity\<close>. \<open>reads_only r P\<close>: every
  character that the pattern \<open>r\<close> can consume satisfies \<open>P\<close>.
\<close>

definition amt_char :: "char \<Rightarrow> bool" where
  "amt_char c = (is_digit c \<or> c = CHR '','')"

fun dot2 :: "string \<Rightarrow> bool" where
  "dot2 (c # d1 # d2 # r) = (c = CHR ''.'' \<and> is_digit d1 \<and> is_digit d2)"
| "dot2 s = False"

fun no_cents_in :: "string \<Rightarrow> string \<Rightarrow> bool" where
  "no_cents_in [] r = True"
| "no_cents_in (c # cs) r = (\<not> dot2 (c # cs @ r) \<and> no_cents_in cs r)"

definition nonneg :: "number \<Rightarrow> bool" where
  "nonneg x = (x = PInf \<or> (\<exists>n. 0 \<le> n \<and> x = Fin n))"

fun reads_only :: "re \<Rightarrow> (char \<Rightarrow> bool) \<Rightarrow> bool" where
  "reads_only (Atom p) P = (\<forall>c. p c \<longrightarrow> P c)"
| "reads_only Eps P = True"
| "reads_only (Seq a b) P = (reads_only a P \<and> reads_only b P)"
| "reads_only (Alt a b) P = (reads_only a P \<and> reads_only b P)"
| "reads_only (Star r) P = reads_only r P"
| "reads_only (Grp i r) P = reads_only r P"

section \<open>Reading text from the page\<close>

lemma textOrEmpty_Inr: "\<exists>s. textOrEmpty el selector = Inr s"
  by (auto simp: textOrEmpty_def try_catch_def bindE_def Let_def split: sum.splits option.splits)

text \<open>
  C6: \<open>textOrEmpty\<close> never throws. Its result is the empty string when the selector
  matches no child, when looking the child up throws, when reading the text throws and
  when the trimmed text is empty; otherwise it is the trimmed text of the child that
  \<open>el.$(selector)\<close> returns, which is not empty.
\<close>

theorem textOrEmpty_never_throws:
  "textOrEmpty el selector \<noteq> Inl e \<and>
   (query el selector = Inr None \<longrightarrow> textOrEmpty el selector = Inr []) \<and>
   (query el selector = Inl e1 \<longrightarrow> textOrEmpty el selector = Inr []) \<and>
   (query el selector = Inr (Some c) \<and> textContent c = Inl e2 \<longrightarrow>
      textOrEmpty el selector = Inr []) \<and>
   (query el selector = Inr (Some c) \<and> textContent c = Inr t \<and> trim t = [] \<longrightarrow>
      textOrEmpty el selector = Inr []) \<and>
   (query el selector = Inr (Some c) \<and> textContent c = Inr t \<and> trim t \<noteq> [] \<longrightarrow>
      textOrEmpty el selector = Inr (trim t)) \<and>
   (textOrEmpty el selector = Inr [] \<or>
    (\<exists>c t. query el selector = Inr (Some c) \<and> textContent c = Inr t \<and> trim t \<noteq> [] \<and>
       textOrEmpty el selector = Inr (trim t)))"
  by (auto simp: textOrEmpty_def try_catch_def bindE_def Let_def split: sum.splits option.splits)

theorem textOrEmpty_never_throws_witness:
  "query (Element (Inr []) (\<lambda>s. if s = ''.price'' then Inr (Some (Element (Inr ''  $5.00 '') (\<lambda>s. Inr None) (\<lambda>s. Inr [])))
                                   else if s = ''.gone'' then Inl (Error ''detached'') else Inr None)
            (\<lambda>s. Inr [])) ''.price''
     = Inr (Some (Element (Inr ''  $5.00 '') (\<lambda>s. Inr None) (\<lambda>s. Inr []))) \<and>
   trim ''  $5.00 '' \<noteq> [] \<and>
   textOrEmpty (Element (Inr []) (\<lambda>s. if s = ''.price'' then Inr (Some (Element (Inr ''  $5.00 '') (\<lambda>s. Inr None) (\<lambda>s. Inr [])))
                                   else if s = ''.gone'' then Inl (Error ''detached'') else Inr None)
            (\<lambda>s. Inr [])) ''.price'' = Inr ''$5.00'' \<and>
   textOrEmpty (Element (Inr []) (\<lambda>s. if s = ''.price'' then Inr (Some (Element (Inr ''  $5.00 '') (\<lambda>s. Inr None) (\<lambda>s. Inr [])))
                                   else if s = ''.gone'' then Inl (Error ''detached'') else Inr None)
            (\<lambda>s. Inr [])) ''.gone'' = Inr [] \<and>
   textOrEmpty (Element (Inr []) (\<lambda>s. if s = ''.price'' then Inr (Some (Element (Inr ''  $5.00 '') (\<lambda>s. Inr None) (\<lambda>s. Inr [])))
                                   else if s = ''.gone'' then Inl (Error ''detached'') else Inr None)
            (\<lambda>s. Inr [])) ''.name'' = Inr []"
  using textOrEmpty_never_throws
    [of "Element (Inr []) (\<lambda>s. if s = ''.price'' then Inr (Some (Element (Inr ''  $5.00 '') (\<lambda>s. Inr None) (\<lambda>s. Inr [])))
                                   else if s = ''.gone'' then Inl (Error ''detached'') else Inr None)
            (\<lambda>s. Inr [])" "''.price''" "Error []" "Error []"
        "Element (Inr ''  $5.00 '') (\<lambda>s. Inr None) (\<lambda>s. Inr [])" "Error []" "''  $5.00 ''"]
    textOrEmpty_never_throws
    [of "Element (Inr []) (\<lambda>s. if s = ''.price'' then Inr (Some (Element (Inr ''  $5.00 '') (\<lambda>s. Inr None) (\<lambda>s. Inr [])))
                                   else if s = ''.gone'' then Inl (Error ''detached'') else Inr None)
            (\<lambda>s. Inr [])" "''.gone''" "Error []" "Error ''detached''"]
    textOrEmpty_never_throws
    [of "Element (Inr []) (\<lambda>s. if s = ''.price'' then Inr (Some (Element (Inr ''  $5.00 '') (\<lambda>s. Inr None) (\<lambda>s. Inr [])))
                                   else if s = ''.gone'' then Inl (Error ''detached'') else Inr None)
            (\<lambda>s. Inr [])" "''.name''"]
  by (simp add: trim_def is_space_def)

section \<open>The list of years\<close>

lemma years_from_eq: "years_from y acc = acc @ map String_of_int (rev [2000..y])"
proof (induction y acc rule: years_from.induct)
  case (1 y years)
  show ?case
  proof (cases "2000 \<le> y")
    case True
    then have "[2000..y] = [2000..y - 1] @ [y]" by (simp add: upto_rec2)
    with True 1 show ?thesis by (subst years_from.simps) simp
  next
    case False
    then show ?thesis by (subst years_from.simps) simp
  qed
qed

lemma digits_of_small: "n < 10 \<Longrightarrow> digits_of n = [digit_char n]"
  by (simp add: digits_of.simps)

lemma digits_of_large: "10 \<le> n \<Longrightarrow> digits_of n = digits_of (n div 10) @ [digit_char (n mod 10)]"
  by (subst digits_of.simps) simp

text \<open>
  C5: with a (non-empty) positional argument \<open>getYearsFromArg\<close> returns that argument alone;
  without one it returns the decimal numerals of the years from the current year down to
  2000, in descending order.
\<close>

theorem getYearsFromArg_spec:
  "(a \<noteq> [] \<longrightarrow> getYearsFromArg (Some a) current = [a]) \<and>
   getYearsFromArg None current = map String_of_int (rev [2000..current]) \<and>
   length (getYearsFromArg None current) = nat (current - 1999)"
  by (simp add: getYearsFromArg_def years_from_eq)

theorem getYearsFromArg_spec_witness:
  "''2021'' \<noteq> [] \<and> getYearsFromArg (Some ''2021'') 2026 = [''2021''] \<and>
   getYearsFromArg None 2003 = [''2003'', ''2002'', ''2001'', ''2000''] \<and>
   length (getYearsFromArg None 2003) = 4"
  using getYearsFromArg_spec [of "''2021''" 2026] getYearsFromArg_spec [of "[]" 2003]
  by (simp add: String_of_int_def digits_of_small digits_of_large digit_char_def)

section \<open>Rounding to a double\<close>

lemma floor_rat_numeral [simp]: "\<lfloor>(numeral a :: rat) / numeral b\<rfloor> = numeral a div numeral b"
  using floor_divide_of_int_eq [of "numeral a" "numeral b", where ?'a = rat] by simp

lemma floor_rat_one_numeral [simp]: "\<lfloor>(1 :: rat) / numeral b\<rfloor> = 1 div numeral b"
  using floor_divide_of_int_eq [of 1 "numeral b", where ?'a = rat] by simp

lemma scale_up: "a < 2 ^ 52 \<Longrightarrow> - 1074 < q \<Longrightarrow> scale a q = scale (2 * a) (q - 1)"
  by (subst scale.simps) simp

lemma scale_down: "2 ^ 53 \<le> a \<Longrightarrow> scale a q = scale (a / 2) (q + 1)"
  by (subst scale.simps) simp

lemma scale_done: "2 ^ 52 \<le> a \<Longrightarrow> a < 2 ^ 53 \<Longrightarrow> scale a q = (a, q)"
  by (subst scale.simps) simp

lemma pow2_powi: "pow2 q = 2 powi q"
  by (simp add: pow2_def power_int_def inverse_eq_divide power_one_over)

lemma pow2_pos: "0 < pow2 q"
  by (simp add: pow2_powi zero_less_power_int)

lemma pow2_plus1: "pow2 (q + 1) = 2 * pow2 q"
  by (simp add: pow2_powi power_int_add_1')

lemma pow2_minus1: "2 * pow2 (q - 1) = pow2 q"
  using pow2_plus1 [of "q - 1"] by simp

lemma pow2_mono: "q \<le> r \<Longrightarrow> pow2 q \<le> pow2 r"
  by (simp add: pow2_powi power_int_increasing)

lemma pow2_0: "pow2 0 = 1"
  by (simp add: pow2_def)

lemma scale_exit:
  "scale a q = (a', q') \<Longrightarrow> 0 < a \<Longrightarrow>
     a' * pow2 q' = a * pow2 q \<and> 0 < a' \<and> a' < 2 ^ 53 \<and> (2 ^ 52 \<le> a' \<or> q' \<le> - 1074)"
proof (induction a q rule: scale.induct)
  case (1 a q)
  show ?case
  proof (cases "a < 2 ^ 52 \<and> - 1074 < q")
    case True
    then have "scale (2 * a) (q - 1) = (a', q')" using "1.prems"(1) by (simp add: scale_up)
    from "1.IH"(1) [OF True this] "1.prems"(2)
    show ?thesis using pow2_minus1 [of q] by (simp add: mult.assoc)
  next
    case False
    show ?thesis
    proof (cases "2 ^ 53 \<le> a")
      case True
      then have "scale (a / 2) (q + 1) = (a', q')" using "1.prems"(1) by (simp add: scale_down)
      from "1.IH"(2) [OF False True this] "1.prems"(2)
      show ?thesis by (simp add: pow2_plus1)
    next
      case b: False
      with False have "scale a q = (a, q)" by (subst scale.simps) auto
      with "1.prems" False b show ?thesis by auto
    qed
  qed
qed

lemma scale_int:
  "a = of_int m \<Longrightarrow> 0 < m \<Longrightarrow> a < 2 ^ 53 \<Longrightarrow>
     \<exists>m' q'. scale a q = (of_int m', q') \<and> of_int m' * pow2 q' = a * pow2 q"
proof (induction a q arbitrary: m rule: scale.induct)
  case (1 a q)
  show ?case
  proof (cases "a < 2 ^ 52 \<and> - 1074 < q")
    case True
    have "2 * a = of_int (2 * m)" using "1.prems"(1) by simp
    moreover have "0 < 2 * m" using "1.prems"(2) by simp
    moreover have "2 * a < 2 ^ 53" using True by simp
    ultimately obtain m' q' where "scale (2 * a) (q - 1) = (of_int m', q')"
      and "of_int m' * pow2 q' = 2 * a * pow2 (q - 1)"
      using "1.IH"(1) [OF True] by blast
    then show ?thesis using True pow2_minus1 [of q] by (auto simp: scale_up mult.assoc)
  next
    case False
    with "1.prems" have "scale a q = (of_int m, q)" by (subst scale.simps) auto
    with "1.prems" show ?thesis by auto
  qed
qed

lemma rne_of_int [simp]: "rne (of_int n) = n"
  by (simp add: rne_def)

lemma rne_numeral [simp]: "rne (numeral n) = numeral n"
  using rne_of_int [of "numeral n"] by simp

lemma rne_err: "\<bar>of_int (rne x) - x\<bar> \<le> 1 / 2"
proof -
  have "of_int \<lfloor>x\<rfloor> \<le> x" "x < of_int \<lfloor>x\<rfloor> + 1" by linarith+
  then show ?thesis by (auto simp: rne_def Let_def)
qed

lemma rne_nonneg: "0 \<le> x \<Longrightarrow> 0 \<le> rne x"
proof -
  assume "0 \<le> x"
  then have "0 \<le> \<lfloor>x\<rfloor>" by simp
  then show ?thesis by (auto simp: rne_def Let_def)
qed

lemma round_double_pos:
  "0 < x \<Longrightarrow> scale x 0 = (a, q) \<Longrightarrow> round_double x = of_int (rne a) * pow2 q"
  by (simp add: round_double_def)

lemma round_double_minus: "round_double (- x) = - round_double x"
  by (simp add: round_double_def Let_def split: prod.splits)

lemma round_double_nonneg: "0 \<le> x \<Longrightarrow> 0 \<le> round_double x"
proof (cases "x = 0")
  case True
  then show ?thesis by (simp add: round_double_def)
next
  case False
  assume "0 \<le> x"
  with False have x: "0 < x" by simp
  obtain a q where s: "scale x 0 = (a, q)" by (cases "scale x 0")
  from scale_exit [OF s x] have "0 < a" by simp
  then have "0 \<le> rne a" by (simp add: rne_nonneg)
  then show ?thesis using pow2_pos [of q] by (simp add: round_double_pos [OF x s])
qed

lemma round_double_int_pos:
  assumes "0 < n" "n \<le> 2 ^ 53"
  shows "round_double (of_int n) = of_int n"
proof (cases "n = 2 ^ 53")
  case True
  have "scale (2 ^ 53) 0 = (2 ^ 52, 1)" by (simp add: scale_down scale_done)
  then show ?thesis using True by (simp add: round_double_def pow2_def rne_def)
next
  case False
  with assms have lt: "n < 2 ^ 53" by simp
  then have "(of_int n :: rat) < of_int (2 ^ 53)" by (simp only: of_int_less_iff)
  then have lt': "(of_int n :: rat) < 2 ^ 53" by simp
  from scale_int [OF refl assms(1) lt', of 0] obtain m' q'
    where s: "scale (of_int n) 0 = (of_int m', q')" and v: "of_int m' * pow2 q' = of_int n * pow2 0"
    by blast
  have "(0::rat) < of_int n" using assms(1) by simp
  from round_double_pos [OF this s] v show ?thesis by (simp add: pow2_0)
qed

lemma round_double_int: "\<bar>n\<bar> \<le> 2 ^ 53 \<Longrightarrow> round_double (of_int n) = of_int n"
proof -
  assume a: "\<bar>n\<bar> \<le> 2 ^ 53"
  consider "n = 0" | "0 < n" | "n < 0" by linarith
  then show ?thesis
  proof cases
    case 1
    then show ?thesis by (simp add: round_double_def)
  next
    case 2
    with a show ?thesis by (simp add: round_double_int_pos)
  next
    case 3
    with a have "round_double (of_int (- n)) = of_int (- n)" by (intro round_double_int_pos) auto
    then show ?thesis using round_double_minus [of "of_int n"] by simp
  qed
qed

lemma rnd_exact: "\<bar>n\<bar> \<le> 9007199254740992 \<Longrightarrow> rnd n = Fin n"
proof -
  assume a: "\<bar>n\<bar> \<le> 9007199254740992"
  then have r: "round_double (of_int n) = of_int n" by (intro round_double_int) simp
  have "\<bar>of_int n :: rat\<bar> = of_int \<bar>n\<bar>" by simp
  also have "\<dots> \<le> of_int 9007199254740992" using a by (simp only: of_int_le_iff)
  also have "\<dots> < 2 ^ 1024" by simp
  finally show ?thesis by (simp add: rnd_def r)
qed

lemma rnd_nonneg: "0 \<le> n \<Longrightarrow> rnd n = PInf \<or> (\<exists>m\<ge>0. rnd n = Fin m)"
proof -
  assume "0 \<le> n"
  then have "0 \<le> round_double (of_int n)" by (intro round_double_nonneg) simp
  then have "0 \<le> \<lfloor>round_double (of_int n)\<rfloor>" by simp
  then show ?thesis using \<open>0 \<le> n\<close> by (auto simp: rnd_def Let_def)
qed

lemma round_double_err:
  assumes "pow2 (- 1022) \<le> x"
  shows "\<bar>round_double x - x\<bar> \<le> x / 2 ^ 53"
proof -
  have x: "0 < x" using assms pow2_pos [of "- 1022"] by linarith
  obtain a q where s: "scale x 0 = (a, q)" by (cases "scale x 0")
  from scale_exit [OF s x] have v: "a * pow2 q = x" and a: "0 < a" "a < 2 ^ 53"
    and d: "2 ^ 52 \<le> a \<or> q \<le> - 1074" by (simp_all add: pow2_0)
  have big: "2 ^ 52 \<le> a"
  proof (rule ccontr)
    assume n: "\<not> 2 ^ 52 \<le> a"
    with d have q: "q \<le> - 1074" by simp
    have "a * pow2 q < 2 ^ 52 * pow2 q" using n pow2_pos [of q] by simp
    also have "\<dots> \<le> 2 ^ 52 * pow2 (- 1074)" using pow2_mono [OF q] by simp
    also have "\<dots> = pow2 (- 1022)" by (simp add: pow2_def)
    finally show False using v assms by simp
  qed
  have "round_double x - x = (of_int (rne a) - a) * pow2 q"
    using v by (simp add: round_double_pos [OF x s] algebra_simps)
  then have "\<bar>round_double x - x\<bar> = \<bar>of_int (rne a) - a\<bar> * pow2 q"
    using pow2_pos [of q] by (simp add: abs_mult)
  also have "\<dots> \<le> (1 / 2) * pow2 q" using rne_err [of a] pow2_pos [of q] by (intro mult_right_mono) auto
  also have "\<dots> \<le> (a / 2 ^ 53) * pow2 q" using big pow2_pos [of q] by (intro mult_right_mono) auto
  also have "\<dots> = x / 2 ^ 53" using v by simp
  finally show ?thesis .
qed

lemma jmul_Fin [simp]: "jmul (Fin a) (Fin b) = rnd (a * b)"
  by (simp add: jmul_def)

lemma jadd_Fin [simp]: "jadd (Fin a) (Fin b) = rnd (a + b)"
  by (simp add: jadd_def)

lemma jsub_Fin [simp]: "jsub (Fin a) (Fin b) = rnd (a - b)"
  by (simp add: jsub_def jneg_def jadd_def)

lemma jless_Fin [simp]: "jless (Fin a) (Fin b) = (a < b)"
  by (simp add: jless_def)

lemmas rnd_eval = rnd_def round_double_def scale_up scale_down scale_done rne_def pow2_def Let_def

section \<open>Numbers that are doubles\<close>

lemma scale_norm_up:
  "2 ^ 52 \<le> a \<Longrightarrow> a < 2 ^ 53 \<Longrightarrow> - 1074 \<le> q \<Longrightarrow> scale (a / 2 ^ k) (q + int k) = (a, q)"
proof (induction k)
  case 0
  then show ?case by (simp add: scale_done)
next
  case (Suc k)
  have "(2::rat) ^ 1 \<le> 2 ^ Suc k" by (intro power_increasing) simp_all
  then have "a / 2 ^ Suc k \<le> a / 2" using Suc.prems(1)
    by (intro divide_left_mono) simp_all
  moreover have "a / 2 < 2 ^ 52" using Suc.prems(2) by simp
  ultimately have lt: "a / 2 ^ Suc k < 2 ^ 52" by (rule le_less_trans)
  have "scale (a / 2 ^ Suc k) (q + int (Suc k)) = scale (2 * (a / 2 ^ Suc k)) (q + int (Suc k) - 1)"
    using lt Suc.prems(3) by (intro scale_up) simp_all
  also have "\<dots> = scale (a / 2 ^ k) (q + int k)" by simp
  finally show ?case using Suc by simp
qed

lemma scale_norm_down:
  "2 ^ 52 \<le> a \<Longrightarrow> a < 2 ^ 53 \<Longrightarrow> scale (a * 2 ^ k) (q - int k) = (a, q)"
proof (induction k)
  case 0
  then show ?case by (simp add: scale_done)
next
  case (Suc k)
  have "(2::rat) ^ 1 \<le> 2 ^ Suc k" by (intro power_increasing) simp_all
  then have "a * 2 \<le> a * 2 ^ Suc k" using Suc.prems(1)
    by (intro mult_left_mono) simp_all
  moreover have "2 ^ 53 \<le> a * 2" using Suc.prems(1) by simp
  ultimately have ge: "2 ^ 53 \<le> a * 2 ^ Suc k" by (rule order_trans [rotated])
  have "scale (a * 2 ^ Suc k) (q - int (Suc k)) = scale (a * 2 ^ Suc k / 2) (q - int (Suc k) + 1)"
    using ge by (rule scale_down)
  also have "\<dots> = scale (a * 2 ^ k) (q - int k)" by simp
  finally show ?case using Suc by simp
qed

lemma scale_norm:
  assumes "2 ^ 52 \<le> a" "a < 2 ^ 53" "- 1074 \<le> q"
  shows "scale (a * pow2 q) 0 = (a, q)"
proof (cases "0 \<le> q")
  case True
  from scale_norm_down [OF assms(1,2), of "nat q" q] True show ?thesis by (simp add: pow2_def)
next
  case False
  from scale_norm_up [OF assms, of "nat (- q)"] False show ?thesis by (simp add: pow2_def)
qed

lemma round_double_fix:
  assumes "2 ^ 52 \<le> m" "m \<le> 2 ^ 53" "- 1074 \<le> q"
  shows "round_double (of_int m * pow2 q) = of_int m * pow2 q"
proof -
  have pos: "(0::rat) < of_int m * pow2 q" using assms(1) pow2_pos [of q] by simp
  show ?thesis
  proof (cases "m = 2 ^ 53")
    case True
    have e: "(of_int m :: rat) * pow2 q = 2 ^ 52 * pow2 (q + 1)" by (simp add: True pow2_plus1)
    have "scale (2 ^ 52 * pow2 (q + 1)) 0 = (2 ^ 52, q + 1)"
      using assms(3) by (intro scale_norm) simp_all
    then have "scale (of_int m * pow2 q) 0 = (of_int (2 ^ 52), q + 1)" by (simp add: e)
    from round_double_pos [OF pos this] show ?thesis by (simp add: e)
  next
    case False
    with assms(2) have "m < 2 ^ 53" by simp
    then have "(of_int m :: rat) < of_int (2 ^ 53)" by (simp only: of_int_less_iff)
    moreover have "(of_int (2 ^ 52) :: rat) \<le> of_int m" using assms(1) by (simp only: of_int_le_iff)
    ultimately have "scale (of_int m * pow2 q) 0 = (of_int m, q)"
      using assms(3) by (intro scale_norm) simp_all
    from round_double_pos [OF pos this] show ?thesis by simp
  qed
qed

lemma rne_bounds:
  assumes "2 ^ 52 \<le> a" "a < 2 ^ 53"
  shows "2 ^ 52 \<le> rne a \<and> rne a \<le> 2 ^ 53"
proof -
  have "(of_int (2 ^ 52) :: rat) \<le> a" using assms(1) by simp
  then have l: "2 ^ 52 \<le> \<lfloor>a\<rfloor>" by (simp only: le_floor_iff)
  have "a < of_int (2 ^ 53)" using assms(2) by simp
  then have u: "\<lfloor>a\<rfloor> < 2 ^ 53" by (simp only: floor_less_iff)
  show ?thesis using l u by (auto simp: rne_def Let_def)
qed

lemma round_double_idem_pos:
  assumes "1 \<le> x"
  shows "round_double (round_double x) = round_double x"
proof -
  have x: "0 < x" using assms by simp
  obtain a q where s: "scale x 0 = (a, q)" by (cases "scale x 0")
  from scale_exit [OF s x] have v: "a * pow2 q = x" and a: "0 < a" "a < 2 ^ 53"
    and d: "2 ^ 52 \<le> a \<or> q \<le> - 1074" by (simp_all add: pow2_0)
  have q: "- 1074 < q"
  proof (rule ccontr)
    assume "\<not> - 1074 < q"
    then have "q \<le> - 53" by simp
    then have "pow2 q \<le> pow2 (- 53)" by (rule pow2_mono)
    then have "a * pow2 q \<le> a * pow2 (- 53)" using a(1) by simp
    also have "\<dots> < 2 ^ 53 * pow2 (- 53)" using a(2) pow2_pos [of "- 53"] by simp
    also have "\<dots> = 1" by (simp add: pow2_def)
    finally show False using v assms by simp
  qed
  with d have big: "2 ^ 52 \<le> a" by simp
  from rne_bounds [OF big a(2)] q
  have "round_double (of_int (rne a) * pow2 q) = of_int (rne a) * pow2 q"
    by (intro round_double_fix) simp_all
  then show ?thesis by (simp add: round_double_pos [OF x s])
qed

lemma round_double_idem_int: "round_double (round_double (of_int n)) = round_double (of_int n)"
proof -
  consider "n = 0" | "1 \<le> n" | "n \<le> - 1" by linarith
  then show ?thesis
  proof cases
    case 1
    then show ?thesis by (simp add: round_double_def)
  next
    case 2
    then have "(1::rat) \<le> of_int n" by simp
    then show ?thesis by (rule round_double_idem_pos)
  next
    case 3
    then have "(1::rat) \<le> of_int (- n)" by simp
    then have "round_double (round_double (of_int (- n))) = round_double (of_int (- n))"
      by (rule round_double_idem_pos)
    then show ?thesis by (simp add: round_double_minus)
  qed
qed

lemma round_double_int_integral: "\<exists>k. round_double (of_int n) = of_int k"
proof -
  have pos: "\<exists>k. round_double (of_int n) = of_int k" if n: "1 \<le> n" for n
  proof -
    have x: "(0::rat) < of_int n" using n by simp
    obtain a q where s: "scale (of_int n) 0 = (a, q)" by (cases "scale (of_int n :: rat) 0")
    from scale_exit [OF s x] have v: "a * pow2 q = of_int n" by (simp add: pow2_0)
    show ?thesis
    proof (cases "0 \<le> q")
      case True
      then have "of_int (rne a) * pow2 q = of_int (rne a * 2 ^ nat q)" by (simp add: pow2_def)
      then show ?thesis unfolding round_double_pos [OF x s] by blast
    next
      case False
      then have "a = of_int (n * 2 ^ nat (- q))" using v by (simp add: pow2_def field_simps)
      then have "rne a = n * 2 ^ nat (- q)" by (simp only: rne_of_int)
      then have "of_int (rne a) * pow2 q = of_int n" using False by (simp add: pow2_def)
      then show ?thesis unfolding round_double_pos [OF x s] by blast
    qed
  qed
  consider "n = 0" | "1 \<le> n" | "n \<le> - 1" by linarith
  then show ?thesis
  proof cases
    case 1
    then show ?thesis by (simp add: round_double_def)
  next
    case 2
    then show ?thesis by (rule pos)
  next
    case 3
    then have "1 \<le> - n" by simp
    from pos [OF this] obtain k where "round_double (of_int (- n)) = of_int k" by blast
    then have "round_double (of_int n) = of_int (- k)" by (simp add: round_double_minus)
    then show ?thesis by blast
  qed
qed

lemma rnd_idem: "rnd n = Fin v \<Longrightarrow> rnd v = Fin v"
proof -
  assume r: "rnd n = Fin v"
  obtain k where k: "round_double (of_int n) = of_int k" using round_double_int_integral by blast
  from r have b: "\<not> 2 ^ 1024 \<le> \<bar>round_double (of_int n)\<bar>" and v: "v = k"
    by (auto simp: rnd_def Let_def k split: if_splits)
  have "round_double (of_int v) = of_int v"
    using round_double_idem_int [of n] by (simp add: k v)
  then show ?thesis using b by (simp add: rnd_def k v)
qed

lemma is_double_rnd [simp]: "is_double (rnd n)"
  by (cases "rnd n") (auto simp: is_double_def dest: rnd_idem)

lemma is_double_special [simp]: "is_double PInf" "is_double NInf" "is_double NaN"
  by (simp_all add: is_double_def)

lemma is_double_jadd [simp]: "is_double (jadd x y)"
  by (cases x; cases y) (simp_all add: jadd_def)

lemma is_double_jmul [simp]: "is_double (jmul x y)"
  by (cases x; cases y) (simp_all add: jmul_def)

lemma is_double_0 [simp]: "is_double (Fin 0)"
  by (simp add: is_double_def rnd_exact)


section \<open>The matcher on the currency pattern\<close>

lemma rs_Atom: "rs (Atom p) s = (case s of [] \<Rightarrow> [] | c # t \<Rightarrow> if p c then [t] else [])"
  by (simp add: rs_def split: list.splits)

lemma rs_Eps: "rs Eps s = [s]"
  by (simp add: rs_def)

lemma rs_Seq: "rs (Seq a b) s = concat (map (rs b) (rs a s))"
  by (simp add: rs_def map_concat comp_def)

lemma rs_Alt: "rs (Alt a b) s = rs a s @ rs b s"
  by (simp add: rs_def)

lemma rs_Grp: "rs (Grp i r) s = rs r s"
  by (simp add: rs_def comp_def)

lemma rs_Star:
  "rs (Star r) s =
     concat (map (\<lambda>s1. if length s1 < length s then rs (Star r) s1 else []) (rs r s)) @ [s]"
proof -
  have "map fst (concat (map (\<lambda>x. if length (fst x) < length s
            then map (\<lambda>y. (fst y, snd y @ snd x)) (ms (Star r) (fst x)) else []) xs))
      = concat (map (\<lambda>s1. if length s1 < length s then rs (Star r) s1 else []) (map fst xs))"
    for xs :: "(string \<times> caps) list"
    by (induction xs) (auto simp: rs_def comp_def)
  then show ?thesis
    by (simp add: rs_def)
qed

lemma rs_Opt: "rs (Opt r) s = rs r s @ [s]"
  by (simp add: Opt_def rs_Alt rs_Eps)

lemma rs_Chr: "rs (Chr c) s = (case s of [] \<Rightarrow> [] | x # t \<Rightarrow> if x = c then [t] else [])"
  by (simp add: Chr_def rs_Atom)

lemma rs_Star_Atom_Nil: "rs (Star (Atom p)) [] = [[]]"
  by (subst rs_Star) (simp add: rs_Atom)

lemma rs_Star_Atom_Cons:
  "rs (Star (Atom p)) (c # t) = (if p c then rs (Star (Atom p)) t @ [c # t] else [c # t])"
  by (subst rs_Star) (simp add: rs_Atom)

lemma star_atom_then:
  assumes "\<And>c t. p c \<Longrightarrow> g (c # t) = []"
  shows "concat (map g (rs (Star (Atom p)) s)) = g (dropWhile p s)"
  by (induction s) (simp_all add: rs_Star_Atom_Nil rs_Star_Atom_Cons assms)

lemma star_atom_hd: "\<exists>xs. rs (Star (Atom p)) s = dropWhile p s # xs"
  by (induction s) (auto simp: rs_Star_Atom_Nil rs_Star_Atom_Cons)

lemma rs_Plus_Atom:
  "rs (Plus (Atom p)) s = (case s of [] \<Rightarrow> [] | c # t \<Rightarrow> if p c then rs (Star (Atom p)) t else [])"
  by (simp add: Plus_def rs_Seq rs_Atom split: list.splits)

lemma plus_atom_then:
  assumes "\<And>c t. p c \<Longrightarrow> g (c # t) = []"
  shows "concat (map g (rs (Plus (Atom p)) s)) =
     (case s of [] \<Rightarrow> [] | c # t \<Rightarrow> if p c then g (dropWhile p t) else [])"
  by (simp add: rs_Plus_Atom star_atom_then [of p g, OF assms] split: list.splits)

lemma Rep_1_3: "Rep r (Suc 0) 3 = Seq r (Opt (Seq r (Opt (Seq r Eps))))"
  by (simp add: eval_nat_numeral Rep.simps)

lemma Rep_3_3: "Rep r 3 3 = Seq r (Seq r (Seq r Eps))"
  by (simp add: eval_nat_numeral Rep.simps)

lemma Rep_2_2: "Rep r 2 2 = Seq r (Seq r Eps)"
  by (simp add: eval_nat_numeral Rep.simps)

lemma usd_re_eq: "usd_re = Seq (Opt (Chr CHR ''$'')) (Seq (Star (Atom is_space)) usd_D)"
  by (simp add: usd_re_def usd_D_def usd_int_def usd_group_def usd_tail_def)

lemma not_digit_dot [simp]: "\<not> is_digit CHR ''.''" 
  and not_digit_comma [simp]: "\<not> is_digit CHR '',''"
  and not_digit_dollar [simp]: "\<not> is_digit CHR ''$''"
  by (simp_all add: is_digit_def)

lemma digit_not_space: "is_digit c \<Longrightarrow> \<not> is_space c"
  by (auto simp: is_digit_def is_space_def)

lemma rs_usd_tail:
  "rs usd_tail u = (case u of x # a # b # v \<Rightarrow>
       if x = CHR ''.'' \<and> is_digit a \<and> is_digit b then [v] else [] | _ \<Rightarrow> [])"
  by (simp add: usd_tail_def Rep_2_2 rs_Seq rs_Chr rs_Atom rs_Eps split: list.splits)

lemma rs_usd_tail_digit: "is_digit c \<Longrightarrow> rs usd_tail (c # t) = []"
  by (auto simp: rs_usd_tail split: list.splits)

lemma rs_usd_tail_comma: "rs usd_tail (CHR '','' # t) = []"
  by (auto simp: rs_usd_tail split: list.splits)

lemma rs_usd_group:
  "rs usd_group u = (case u of x # a # b # c # v \<Rightarrow>
       if x = CHR '','' \<and> is_digit a \<and> is_digit b \<and> is_digit c then [v] else [] | _ \<Rightarrow> [])"
  by (simp add: usd_group_def Rep_3_3 rs_Grp rs_Seq rs_Chr rs_Atom rs_Eps split: list.splits)

lemma rs_usd_group_other: "x \<noteq> CHR '','' \<Longrightarrow> rs usd_group (x # t) = []"
  by (simp add: rs_usd_group split: list.splits)

lemma rs_usd_group_Nil: "rs usd_group [] = []"
  by (simp add: rs_usd_group)

lemma rs_usd_group_match:
  "is_digit a \<Longrightarrow> is_digit b \<Longrightarrow> is_digit c \<Longrightarrow> rs usd_group (CHR '','' # a # b # c # v) = [v]"
  by (simp add: rs_usd_group)

lemma rs_star_group_other: "x \<noteq> CHR '','' \<Longrightarrow> rs (Star usd_group) (x # t) = [x # t]"
  by (subst rs_Star) (simp add: rs_usd_group_other)

lemma rs_star_group_Nil: "rs (Star usd_group) [] = [[]]"
  by (subst rs_Star) (simp add: rs_usd_group_Nil)

lemma rs_star_groups:
  assumes "\<forall>g\<in>set gs. length g = 3 \<and> (\<forall>c\<in>set g. is_digit c)"
  shows "\<exists>xs. rs (Star usd_group) (concat (map (\<lambda>g. CHR '','' # g) gs) @ CHR ''.'' # t)
           = (CHR ''.'' # t) # xs"
  using assms
proof (induction gs)
  case Nil
  then show ?case by (simp add: rs_star_group_other)
next
  case (Cons g gs)
  then obtain a b c where g: "g = [a, b, c]" "is_digit a" "is_digit b" "is_digit c"
    by (cases g; cases "tl g"; cases "tl (tl g)"; cases "tl (tl (tl g))") auto
  from Cons obtain xs where xs:
    "rs (Star usd_group) (concat (map (\<lambda>g. CHR '','' # g) gs) @ CHR ''.'' # t) = (CHR ''.'' # t) # xs"
    by auto
  show ?case
    by (subst rs_Star) (simp add: g rs_usd_group_match xs)
qed

lemma rs_rep13_hd:
  assumes "1 \<le> length g" "length g \<le> 3" "\<forall>c\<in>set g. is_digit c" "t = [] \<or> \<not> is_digit (hd t)"
  shows "\<exists>xs. rs (Rep (Atom is_digit) (Suc 0) 3) (g @ t) = t # xs"
proof -
  consider a where "g = [a]" | a b where "g = [a, b]" | a b c where "g = [a, b, c]"
    using assms(1,2) by (cases g; cases "tl g"; cases "tl (tl g)"; cases "tl (tl (tl g))") auto
  then show ?thesis
  proof cases
    case 1
    with assms show ?thesis
      by (cases t) (auto simp: Rep_1_3 rs_Seq rs_Opt rs_Atom rs_Eps)
  next
    case 2
    with assms show ?thesis
      by (cases t) (auto simp: Rep_1_3 rs_Seq rs_Opt rs_Atom rs_Eps)
  next
    case 3
    with assms show ?thesis
      by (cases t) (auto simp: Rep_1_3 rs_Seq rs_Opt rs_Atom rs_Eps)
  qed
qed

lemma rs_rep13_long:
  assumes "is_digit a" "is_digit b" "is_digit c"
  shows "rs (Rep (Atom is_digit) (Suc 0) 3) (a # b # c # t) = [t, c # t, b # c # t]"
  using assms by (simp add: Rep_1_3 rs_Seq rs_Opt rs_Atom rs_Eps)

lemma concat_map_hd:
  "xs = x # xs' \<Longrightarrow> f x = y # ys \<Longrightarrow> \<exists>zs. concat (map f xs) = y # zs"
  by auto

lemma rs_usd_int_grouped:
  assumes "1 \<le> length g0" "length g0 \<le> 3" "\<forall>c\<in>set g0. is_digit c"
    and "\<forall>g\<in>set gs. length g = 3 \<and> (\<forall>c\<in>set g. is_digit c)"
  shows "\<exists>xs. rs usd_int (g0 @ concat (map (\<lambda>g. CHR '','' # g) gs) @ CHR ''.'' # t)
           = (CHR ''.'' # t) # xs"
proof -
  let ?u = "concat (map (\<lambda>g. CHR '','' # g) gs) @ CHR ''.'' # t"
  have "?u = [] \<or> \<not> is_digit (hd ?u)"
    by (cases gs) auto
  from rs_rep13_hd [OF assms(1-3) this]
  obtain xs where 1: "rs (Rep (Atom is_digit) (Suc 0) 3) (g0 @ ?u) = ?u # xs" by blast
  from rs_star_groups [OF assms(4)]
  obtain ys where 2: "rs (Star usd_group) ?u = (CHR ''.'' # t) # ys" by blast
  show ?thesis
    by (simp add: usd_int_def rs_Grp rs_Alt rs_Seq 1 2)
qed

lemma rs_usd_D_grouped:
  assumes "1 \<le> length g0" "length g0 \<le> 3" "\<forall>c\<in>set g0. is_digit c"
    and "\<forall>g\<in>set gs. length g = 3 \<and> (\<forall>c\<in>set g. is_digit c)"
    and "is_digit c1" "is_digit c2"
  shows "\<exists>xs. rs usd_D (g0 @ concat (map (\<lambda>g. CHR '','' # g) gs) @ CHR ''.'' # c1 # c2 # post)
           = post # xs"
proof -
  from rs_usd_int_grouped [OF assms(1-4)]
  obtain xs where "rs usd_int (g0 @ concat (map (\<lambda>g. CHR '','' # g) gs) @ CHR ''.'' # c1 # c2 # post)
           = (CHR ''.'' # c1 # c2 # post) # xs" by blast
  then show ?thesis
    by (simp add: usd_D_def rs_Seq rs_usd_tail assms(5,6))
qed

lemma rs_usd_int_nondigit: "s = [] \<or> \<not> is_digit (hd s) \<Longrightarrow> rs usd_int s = []"
  by (cases s) (auto simp: usd_int_def rs_Grp rs_Alt rs_Seq Rep_1_3 rs_Atom rs_Plus_Atom)

lemma rs_usd_D_nondigit: "s = [] \<or> \<not> is_digit (hd s) \<Longrightarrow> rs usd_D s = []"
  by (simp add: usd_D_def rs_Seq rs_usd_int_nondigit)

lemma rs_usd_D_plain:
  assumes "ds \<noteq> []" "\<forall>c\<in>set ds. is_digit c" "is_digit c1" "is_digit c2"
  shows "\<exists>xs. rs usd_D (ds @ CHR ''.'' # c1 # c2 # post) = post # xs"
proof (cases "length ds \<le> 3")
  case True
  with assms(1) have "1 \<le> length ds" by (cases ds) auto
  from rs_usd_D_grouped [OF this True assms(2) _ assms(3,4), of "[]" post]
  show ?thesis by simp
next
  case False
  then obtain a b c e t where ds: "ds = a # b # c # e # t"
    by (cases ds; cases "tl ds"; cases "tl (tl ds)"; cases "tl (tl (tl ds))") auto
  with assms(2) have dig: "is_digit a" "is_digit b" "is_digit c" "is_digit e" "\<forall>x\<in>set t. is_digit x"
    by auto
  let ?s = "ds @ CHR ''.'' # c1 # c2 # post"
  let ?r = "t @ CHR ''.'' # c1 # c2 # post"
  have e_comma: "e \<noteq> CHR '',''" "c \<noteq> CHR '',''" "b \<noteq> CHR '',''"
    using dig by auto
  have A1: "concat (map (rs (Star usd_group)) (rs (Rep (Atom is_digit) (Suc 0) 3) ?s))
      = [e # ?r, c # e # ?r, b # c # e # ?r]"
    by (simp add: ds rs_rep13_long dig rs_star_group_other e_comma)
  have dw: "dropWhile is_digit (b # c # e # ?r) = CHR ''.'' # c1 # c2 # post"
    using dig by (simp add: dropWhile_append3)
  have A2: "concat (map (rs usd_tail) (rs (Plus (Atom is_digit)) ?s)) = [post]"
    by (simp add: plus_atom_then [of is_digit "rs usd_tail", OF rs_usd_tail_digit] ds dig
       del: dropWhile.simps)
      (simp add: dw [unfolded ds, simplified] rs_usd_tail assms(3,4))
  show ?thesis
    by (simp add: usd_D_def usd_int_def rs_Seq rs_Grp rs_Alt A1 A2 rs_usd_tail_digit dig One_nat_def)
qed

lemma rs_usd_D_space: "is_space c \<Longrightarrow> rs usd_D (c # t) = []"
  using digit_not_space [of c] by (intro rs_usd_D_nondigit) auto

lemma rs_space_star_D: "concat (map (rs usd_D) (rs (Star (Atom is_space)) s)) = rs usd_D (dropWhile is_space s)"
  by (rule star_atom_then) (rule rs_usd_D_space)

lemma rs_usd_re: "rs usd_re s = rs usd_D (skip s)"
proof (cases s)
  case Nil
  then show ?thesis
    by (simp add: usd_re_eq rs_Seq rs_Opt rs_Chr rs_space_star_D skip_def)
next
  case (Cons c t)
  show ?thesis
  proof (cases "c = CHR ''$''")
    case True
    have "rs usd_D (dropWhile is_space (CHR ''$'' # t)) = []"
      by (rule rs_usd_D_nondigit) (simp add: is_space_def)
    with True Cons show ?thesis
      by (simp add: usd_re_eq rs_Seq rs_Opt rs_Chr rs_space_star_D skip_def del: dropWhile.simps)
  next
    case False
    with Cons show ?thesis
      by (simp add: usd_re_eq rs_Seq rs_Opt rs_Chr rs_space_star_D skip_def del: dropWhile.simps)
  qed
qed

lemma rs_suffix: "x \<in> set (rs r s) \<Longrightarrow> \<exists>p. s = p @ x"
proof (induction r s arbitrary: x rule: ms.induct)
  case (1 p s)
  then show ?case by (cases s) (auto simp: rs_Atom split: if_splits)
next
  case (2 s)
  then show ?case by (simp add: rs_Eps)
next
  case (3 a b s)
  from "3.prems" obtain u where u: "u \<in> set (rs a s)" "x \<in> set (rs b u)"
    unfolding rs_Seq by auto
  from u(1) obtain xa where xa: "xa \<in> set (ms a s)" "u = fst xa"
    unfolding rs_def by auto
  from "3.IH"(1) [OF u(1)] obtain p where p: "s = p @ u" by blast
  from "3.IH"(2) [OF xa(1)] u(2) xa(2) obtain q where "u = q @ x" by blast
  with p show ?case by auto
next
  case (4 a b s)
  then have "x \<in> set (rs a s) \<or> x \<in> set (rs b s)" by (simp add: rs_Alt)
  then show ?case using "4.IH" by blast
next
  case (5 r s)
  from "5.prems" have "x \<in> set (concat (map (\<lambda>s1. if length s1 < length s then rs (Star r) s1 else []) (rs r s)) @ [s])"
    by (subst (asm) rs_Star)
  then consider "x = s"
    | u where "u \<in> set (rs r s)" "length u < length s" "x \<in> set (rs (Star r) u)"
    unfolding set_append set_concat set_map by (auto split: if_splits)
  then show ?case
  proof cases
    case 1
    then show ?thesis by simp
  next
    case 2
    from 2(1) obtain xa where xa: "xa \<in> set (ms r s)" "u = fst xa"
      unfolding rs_def by auto
    from "5.IH"(1) [OF 2(1)] obtain p where p: "s = p @ u" by blast
    from "5.IH"(2) [OF xa(1)] 2(2,3) xa(2) obtain q where "u = q @ x" by blast
    with p show ?thesis by auto
  qed
next
  case (6 i r s)
  then show ?case by (simp add: rs_Grp)
qed

lemma exec_at_None: "rs r s = [] \<Longrightarrow> exec_at r s = None"
  by (simp add: exec_at_def rs_def)

lemma exec_at_Some:
  assumes "rs r s = x # xs"
  shows "\<exists>m p. exec_at r s = Some m \<and> m0 m = p \<and> rest m = x \<and> s = p @ x"
proof -
  from assms obtain y ys where y: "ms r s = y # ys" "fst y = x"
    unfolding rs_def by (cases "ms r s") auto
  from rs_suffix [of x r s] assms obtain p where "s = p @ x" by auto
  with y show ?thesis
    by (simp add: exec_at_def)
qed

lemma search_exec: "exec_at r s = Some m \<Longrightarrow> search r s = Some m"
  by (cases s) simp_all

lemma search_skip: "exec_at r (c # cs) = None \<Longrightarrow> search r (c # cs) = search r cs"
  by simp

lemma skip_decomp: "\<exists>pfx. s = pfx @ skip s \<and> (\<forall>c\<in>set pfx. c = CHR ''$'' \<or> is_space c)"
proof (cases s)
  case Nil
  then show ?thesis by (simp add: skip_def)
next
  case (Cons c t)
  show ?thesis
  proof (cases "c = CHR ''$''")
    case True
    have "s = (CHR ''$'' # takeWhile is_space t) @ skip s"
      using True Cons by (simp add: skip_def)
    moreover have "\<forall>c\<in>set (CHR ''$'' # takeWhile is_space t). c = CHR ''$'' \<or> is_space c"
      by (auto dest: set_takeWhileD)
    ultimately show ?thesis by blast
  next
    case False
    have "s = takeWhile is_space s @ skip s"
      using False Cons by (simp add: skip_def)
    moreover have "\<forall>c\<in>set (takeWhile is_space s). c = CHR ''$'' \<or> is_space c"
      by (auto dest: set_takeWhileD)
    ultimately show ?thesis by blast
  qed
qed

lemma skip_prefix:
  "s = take (length s - length (skip s)) s @ skip s \<and>
   (\<forall>c\<in>set (take (length s - length (skip s)) s). c = CHR ''$'' \<or> is_space c)"
proof -
  obtain pfx where p: "s = pfx @ skip s" "\<forall>c\<in>set pfx. c = CHR ''$'' \<or> is_space c"
    using skip_decomp [of s] by (elim exE conjE)
  have "length s = length pfx + length (skip s)"
    by (subst p(1)) simp
  then have "take (length s - length (skip s)) s = take (length pfx) (pfx @ skip s)"
    using p(1) by simp
  then have "take (length s - length (skip s)) s = pfx" by simp
  with p show ?thesis by simp
qed

lemma exec_at_rs:
  assumes "rs r s = x # xs"
  shows "exec_at r s = Some \<lparr>m0 = take (length s - length x) s, groups = snd (hd (ms r s)), rest = x\<rparr>"
proof -
  from assms obtain y ys where y: "ms r s = y # ys" "fst y = x"
    unfolding rs_def by (cases "ms r s") auto
  then show ?thesis by (simp add: exec_at_def)
qed

lemma rs_hd_length: "rs r s = x # xs \<Longrightarrow> length x \<le> length s"
  using rs_suffix [of x r s] by auto

lemma rs_hd_suffix: "rs r s = x # xs \<Longrightarrow> s = take (length s - length x) s @ x"
proof -
  assume a: "rs r s = x # xs"
  then obtain p where p: "s = p @ x" using rs_suffix [of x r s] by auto
  have "length s = length p + length x" by (subst p) simp
  then have "take (length s - length x) s = take (length p) (p @ x)" using p by simp
  then show ?thesis using p by simp
qed

lemma take_match:
  assumes "length post \<le> length y"
  shows "take (length (pfx @ y) - length post) (pfx @ y) = pfx @ take (length y - length post) y"
  using assms by simp

lemma dropWhile_space_app:
  "\<not> is_space h \<Longrightarrow> dropWhile is_space (a @ h # t) = dropWhile is_space a @ h # t"
  by (induction a) auto

lemma collapse_nonspace:
  "\<not> is_space h \<Longrightarrow> collapse_ws (a @ h # t) = collapse_ws a @ h # collapse_ws t"
proof (induction a rule: collapse_ws.induct)
  case 1
  then show ?case by simp
next
  case (2 c cs)
  then show ?case by (simp add: dropWhile_space_app)
qed

lemma collapse_block:
  "\<forall>c\<in>set b. \<not> is_space c \<Longrightarrow> collapse_ws (b @ t) = b @ collapse_ws t"
  by (induction b) auto

lemma collapse_mid:
  assumes "b \<noteq> []" "\<forall>c\<in>set b. \<not> is_space c"
  shows "collapse_ws (a @ b @ t) = collapse_ws a @ b @ collapse_ws t"
proof -
  from assms obtain h b' where b: "b = h # b'" "\<not> is_space h" "\<forall>c\<in>set b'. \<not> is_space c"
    by (cases b) auto
  show ?thesis
    by (simp add: b collapse_nonspace collapse_block)
qed

lemma trim_mid:
  assumes "b \<noteq> []" "\<forall>c\<in>set b. \<not> is_space c"
  shows "trim (a @ b @ t) = dropWhile is_space a @ b @ rev (dropWhile is_space (rev t))"
proof -
  from assms obtain h b' where b: "b = h # b'" "\<not> is_space h"
    by (cases b) auto
  from assms obtain l b'' where b2: "b = b'' @ [l]" "\<not> is_space l"
    by (cases b rule: rev_cases) auto
  have 1: "dropWhile is_space (a @ b @ t) = dropWhile is_space a @ b @ t"
    using dropWhile_space_app [OF b(2), of a "b' @ t"] by (simp add: b(1))
  have "dropWhile is_space (rev t @ l # (rev b'' @ rev (dropWhile is_space a)))
      = dropWhile is_space (rev t) @ l # (rev b'' @ rev (dropWhile is_space a))"
    by (rule dropWhile_space_app [OF b2(2)])
  then have 2: "dropWhile is_space (rev (dropWhile is_space a @ b @ t))
      = dropWhile is_space (rev t) @ rev b @ rev (dropWhile is_space a)"
    by (simp add: b2(1))
  show ?thesis
    unfolding trim_def 1 2 by simp
qed

lemma collapse_no_digit:
  "\<forall>c\<in>set a. \<not> is_digit c \<Longrightarrow> \<forall>c\<in>set (collapse_ws a). \<not> is_digit c"
proof (induction a rule: collapse_ws.induct)
  case 1
  then show ?case by simp
next
  case (2 c cs)
  have sp: "\<not> is_digit CHR '' ''" by (simp add: is_digit_def)
  from 2 show ?case
    by (auto simp: sp dest: set_dropWhileD)
qed

section \<open>The first match of the currency pattern\<close>

lemma rs_reads:
  "x \<in> set (rs r s) \<Longrightarrow> reads_only r P \<Longrightarrow> \<exists>p. s = p @ x \<and> (\<forall>c\<in>set p. P c)"
proof (induction r s arbitrary: x rule: ms.induct)
  case (1 p s)
  then show ?case by (cases s) (auto simp: rs_Atom split: if_splits)
next
  case (2 s)
  then show ?case by (simp add: rs_Eps)
next
  case (3 a b s)
  from "3.prems" obtain u where u: "u \<in> set (rs a s)" "x \<in> set (rs b u)"
    unfolding rs_Seq by auto
  from u(1) obtain xa where xa: "xa \<in> set (ms a s)" "u = fst xa"
    unfolding rs_def by auto
  from "3.prems"(2) have ro: "reads_only a P" "reads_only b P" by simp_all
  from "3.IH"(1) [OF u(1) ro(1)] obtain p where p: "s = p @ u" "\<forall>c\<in>set p. P c" by blast
  from "3.IH"(2) [OF xa(1) _ ro(2), of x] u(2) xa(2)
  obtain q where "u = q @ x" "\<forall>c\<in>set q. P c" by blast
  with p have "s = (p @ q) @ x \<and> (\<forall>c\<in>set (p @ q). P c)" by auto
  then show ?case by blast
next
  case (4 a b s)
  then have "x \<in> set (rs a s) \<or> x \<in> set (rs b s)" by (simp add: rs_Alt)
  then show ?case using "4.IH" "4.prems"(2) by auto
next
  case (5 r s)
  from "5.prems"(1) have "x \<in> set (concat (map (\<lambda>s1. if length s1 < length s then rs (Star r) s1 else []) (rs r s)) @ [s])"
    by (subst (asm) rs_Star)
  then consider "x = s"
    | u where "u \<in> set (rs r s)" "length u < length s" "x \<in> set (rs (Star r) u)"
    unfolding set_append set_concat set_map by (auto split: if_splits)
  then show ?case
  proof cases
    case 1
    then show ?thesis by simp
  next
    case 2
    from 2(1) obtain xa where xa: "xa \<in> set (ms r s)" "u = fst xa"
      unfolding rs_def by auto
    from "5.prems"(2) have ro: "reads_only r P" by simp
    from "5.IH"(1) [OF 2(1) ro] obtain p where p: "s = p @ u" "\<forall>c\<in>set p. P c" by blast
    from "5.IH"(2) [OF xa(1) _ _ "5.prems"(2), of x] 2(2,3) xa(2)
    obtain q where "u = q @ x" "\<forall>c\<in>set q. P c" by blast
    with p have "s = (p @ q) @ x \<and> (\<forall>c\<in>set (p @ q). P c)" by auto
    then show ?thesis by blast
  qed
next
  case (6 i r s)
  then show ?case by (simp add: rs_Grp)
qed

lemma reads_only_Rep: "reads_only r P \<Longrightarrow> reads_only (Rep r m n) P"
  by (induction r m n rule: Rep.induct) (simp_all add: Rep.simps Opt_def)

lemma reads_only_usd_int: "reads_only usd_int amt_char"
  by (simp add: usd_int_def usd_group_def Plus_def Chr_def reads_only_Rep amt_char_def)

lemma usd_D_shape:
  assumes "rs usd_D z \<noteq> []"
  shows "dot2 (dropWhile amt_char z)"
proof -
  from assms obtain x where x: "x \<in> set (rs usd_int z)" "rs usd_tail x \<noteq> []"
    by (auto simp: usd_D_def rs_Seq)
  from x(2) obtain a b v where v: "x = CHR ''.'' # a # b # v" "is_digit a" "is_digit b"
    by (auto simp: rs_usd_tail split: list.splits if_splits)
  from rs_reads [OF x(1) reads_only_usd_int] obtain p where p: "z = p @ x" "\<forall>c\<in>set p. amt_char c"
    by blast
  have "\<not> amt_char CHR ''.''" by (simp add: amt_char_def)
  then have "dropWhile amt_char z = x"
    using p by (simp add: v(1) dropWhile_append2)
  then show ?thesis by (simp add: v)
qed

lemma exec_usd:
  assumes "rs usd_D (skip w) = post # xs"
  shows "\<exists>m pfx. exec_at usd_re w = Some m \<and>
           m0 m = pfx @ take (length (skip w) - length post) (skip w) \<and>
           (\<forall>c\<in>set pfx. c = CHR ''$'' \<or> is_space c)"
proof -
  define k where "k = skip w"
  obtain pfx where pfx: "w = pfx @ k" "\<forall>c\<in>set pfx. c = CHR ''$'' \<or> is_space c"
    using skip_decomp [of w] unfolding k_def by (elim exE conjE)
  have r: "rs usd_re w = post # xs"
    using assms by (simp add: rs_usd_re)
  have len: "length post \<le> length k"
    using assms unfolding k_def by (rule rs_hd_length)
  have "take (length w - length post) w = pfx @ take (length k - length post) k"
    unfolding pfx(1) by (rule take_match [OF len])
  then have "exec_at usd_re w =
      Some \<lparr>m0 = pfx @ take (length k - length post) k, groups = snd (hd (ms usd_re w)), rest = post\<rparr>"
    unfolding exec_at_rs [OF r] by simp
  with pfx(2) show ?thesis
    unfolding k_def [symmetric]
    by (intro exI [of _ "\<lparr>m0 = pfx @ take (length k - length post) k,
          groups = snd (hd (ms usd_re w)), rest = post\<rparr>"] exI [of _ pfx]) simp
qed

lemma search_usd_gen:
  assumes H: "\<And>u v. a = u @ v \<Longrightarrow> v \<noteq> [] \<Longrightarrow>
      rs usd_D (skip (v @ z)) = [] \<or> skip (v @ z) = skip z"
    and M: "rs usd_D (skip z) = post # xs"
  shows "\<exists>m pfx. search usd_re (a @ z) = Some m \<and>
           m0 m = pfx @ take (length (skip z) - length post) (skip z) \<and>
           (\<forall>c\<in>set pfx. c = CHR ''$'' \<or> is_space c)"
  using H
proof (induction a)
  case Nil
  from exec_usd [OF M] obtain m pfx where "exec_at usd_re z = Some m"
    "m0 m = pfx @ take (length (skip z) - length post) (skip z)"
    "\<forall>c\<in>set pfx. c = CHR ''$'' \<or> is_space c" by blast
  then show ?case by (auto simp: search_exec)
next
  case (Cons c a)
  have "rs usd_D (skip ((c # a) @ z)) = [] \<or> skip ((c # a) @ z) = skip z"
    by (rule Cons.prems [of "[]"]) simp_all
  then show ?case
  proof
    assume "rs usd_D (skip ((c # a) @ z)) = []"
    then have "exec_at usd_re (c # (a @ z)) = None"
      by (simp add: exec_at_None rs_usd_re)
    then have "search usd_re ((c # a) @ z) = search usd_re (a @ z)" by simp
    moreover have "\<exists>m pfx. search usd_re (a @ z) = Some m \<and>
           m0 m = pfx @ take (length (skip z) - length post) (skip z) \<and>
           (\<forall>c\<in>set pfx. c = CHR ''$'' \<or> is_space c)"
    proof (rule Cons.IH)
      fix u v assume "a = u @ v" "v \<noteq> []"
      then show "rs usd_D (skip (v @ z)) = [] \<or> skip (v @ z) = skip z"
        using Cons.prems [of "c # u" v] by simp
    qed
    ultimately show ?thesis by simp
  next
    assume e: "skip ((c # a) @ z) = skip z"
    then have "rs usd_D (skip ((c # a) @ z)) = post # xs" using M by simp
    from exec_usd [OF this] obtain m pfx where "exec_at usd_re ((c # a) @ z) = Some m"
      "m0 m = pfx @ take (length (skip z) - length post) (skip z)"
      "\<forall>c\<in>set pfx. c = CHR ''$'' \<or> is_space c" unfolding e by blast
    then show ?thesis by (auto simp: search_exec)
  qed
qed

lemma no_cents_in_suffix: "no_cents_in (u @ v) r \<Longrightarrow> no_cents_in v r"
  by (induction u) auto

lemma no_cents_in_dot2: "no_cents_in (u @ v) r \<Longrightarrow> v \<noteq> [] \<Longrightarrow> \<not> dot2 (v @ r)"
  using no_cents_in_suffix [of u v r] by (cases v) auto

lemma skip_amount:
  assumes "dollar = [] \<or> dollar = ''$''" "y \<noteq> []" "is_digit (hd y)"
  shows "skip (dollar @ y) = y"
  using assms digit_not_space [of "hd y"] by (cases y) (auto simp: skip_def is_digit_def)

lemma early_match:
  assumes A: "no_cents_in a (dollar @ y)"
    and B: "dollar = ''$'' \<or> a = [] \<or> \<not> amt_char (last a)"
    and dollar: "dollar = [] \<or> dollar = ''$''"
    and y: "y \<noteq> []" "is_digit (hd y)"
    and uv: "a = u @ v" "v \<noteq> []"
  shows "rs usd_D (skip (v @ dollar @ y)) = [] \<or> skip (v @ dollar @ y) = skip (dollar @ y)"
proof -
  define z where "z = dollar @ y"
  have z: "z \<noteq> []" "\<not> is_space (hd z)"
    using dollar y digit_not_space [of "hd y"] by (auto simp: z_def is_space_def)
  then have dz: "dropWhile is_space z = z" by (cases z) auto
  have sz: "skip z = y" unfolding z_def by (rule skip_amount [OF dollar y])
  from uv obtain c v0 where v: "v = c # v0" by (cases v) auto
  define x where "x = (if c = CHR ''$'' then v0 else v)"
  have sk: "skip (v @ z) = dropWhile is_space (x @ z)"
    by (simp add: skip_def v x_def)
  obtain u1 where u1: "a = u1 @ x"
    using uv(1) v by (cases "c = CHR ''$''") (auto simp: x_def intro: that [of "u @ [c]"] that [of u])
  show ?thesis
  proof (cases "\<forall>ch\<in>set x. is_space ch")
    case True
    then have "skip (v @ z) = z" using sk dz by (simp add: dropWhile_append2)
    moreover have "rs usd_D (CHR ''$'' # y) = []"
      by (rule rs_usd_D_nondigit) (simp add: is_digit_def)
    ultimately show ?thesis
      using dollar sz unfolding z_def [symmetric] by (auto simp: z_def)
  next
    case False
    then have sk2: "skip (v @ z) = dropWhile is_space x @ z"
      using sk by (auto simp: dropWhile_append1)
    define v' where "v' = dropWhile is_space x"
    have v'1: "v' \<noteq> []" using False by (auto simp: v'_def)
    have x': "x = takeWhile is_space x @ v'" by (simp add: v'_def)
    then have a': "a = (u1 @ takeWhile is_space x) @ v'" using u1 by simp
    have "rs usd_D (v' @ z) = []"
    proof (rule ccontr)
      assume "rs usd_D (v' @ z) \<noteq> []"
      then have d2: "dot2 (dropWhile amt_char (v' @ z))" by (rule usd_D_shape)
      show False
      proof (cases "\<forall>ch\<in>set v'. amt_char ch")
        case True
        have "last a = last v'" using a' v'1 by simp
        moreover have "last v' \<in> set v'" using v'1 by simp
        ultimately have "amt_char (last a)" using True by simp
        moreover have "a \<noteq> []" using a' v'1 by simp
        ultimately have dl: "dollar = ''$''" using B by simp
        have "\<not> amt_char CHR ''$''" by (simp add: amt_char_def is_digit_def)
        then have "dropWhile amt_char (v' @ z) = CHR ''$'' # y"
          using True by (simp add: dropWhile_append2 z_def dl)
        with d2 y show False by (cases y; cases "tl y") auto
      next
        case False
        then have dw: "dropWhile amt_char (v' @ z) = dropWhile amt_char v' @ z"
          by (auto simp: dropWhile_append1)
        have ne: "dropWhile amt_char v' \<noteq> []" using False by auto
        have "a = ((u1 @ takeWhile is_space x) @ takeWhile amt_char v') @ dropWhile amt_char v'"
          using a' by simp
        from no_cents_in_dot2 [OF A [unfolded this] ne] d2 dw
        show False by (simp add: z_def)
      qed
    qed
    then show ?thesis using sk2 by (simp add: v'_def z_def)
  qed
qed

section \<open>White space before the amount\<close>

lemma collapse_ws_Nil_iff: "collapse_ws s = [] \<longleftrightarrow> s = []"
  by (cases s) auto

lemma dot2_2nd: "dot2 (c # d # r) \<Longrightarrow> is_digit d"
  by (cases r) auto

lemma dot2_collapse:
  assumes "2 \<le> length b" "\<forall>c\<in>set b. \<not> is_space c" "dot2 (c # collapse_ws cs @ b @ x')"
  shows "dot2 (c # cs @ b @ x)"
proof -
  from assms(1) obtain b1 b2 b' where b: "b = b1 # b2 # b'"
    by (cases b; cases "tl b") auto
  have sp: "\<not> is_digit CHR '' ''" by (simp add: is_digit_def)
  show ?thesis
  proof (cases cs)
    case Nil
    with assms(3) show ?thesis by (simp add: b)
  next
    case (Cons e1 cs1)
    note c1 = this
    show ?thesis
    proof (cases "is_space e1")
      case True
      with assms(3) c1 sp show ?thesis by (auto dest: dot2_2nd)
    next
      case False
      note e1 = this
      show ?thesis
      proof (cases cs1)
        case Nil
        with assms(3) c1 e1 show ?thesis by (simp add: b)
      next
        case (Cons e2 cs2)
        show ?thesis
        proof (cases "is_space e2")
          case True
          with assms(3) c1 e1 Cons sp show ?thesis by simp
        next
          case False
          with assms(3) c1 e1 Cons show ?thesis by simp
        qed
      qed
    qed
  qed
qed

lemma no_cents_in_collapse:
  assumes "2 \<le> length b" "\<forall>c\<in>set b. \<not> is_space c"
  shows "no_cents_in pre (b @ x) \<Longrightarrow> no_cents_in (collapse_ws pre) (b @ x')"
proof (induction pre rule: collapse_ws.induct)
  case 1
  then show ?case by simp
next
  case (2 c cs)
  show ?case
  proof (cases "is_space c")
    case True
    have "cs = takeWhile is_space cs @ dropWhile is_space cs" by simp
    then have "no_cents_in (takeWhile is_space cs @ dropWhile is_space cs) (b @ x)"
      using "2.prems" by simp
    then have "no_cents_in (dropWhile is_space cs) (b @ x)" by (rule no_cents_in_suffix)
    from "2.IH"(1) [OF True this] True show ?thesis
      by (cases "collapse_ws (dropWhile is_space cs) @ b @ x'"; cases "tl (collapse_ws (dropWhile is_space cs) @ b @ x')")
        auto
  next
    case False
    from "2.prems" have p: "\<not> dot2 (c # cs @ b @ x)" "no_cents_in cs (b @ x)" by simp_all
    from dot2_collapse [OF assms, of c cs x' x] p(1) have "\<not> dot2 (c # collapse_ws cs @ b @ x')" by blast
    with "2.IH"(2) [OF False p(2)] False show ?thesis by simp
  qed
qed

lemma last_collapse:
  "collapse_ws s \<noteq> [] \<Longrightarrow> amt_char (last (collapse_ws s)) \<Longrightarrow> s \<noteq> [] \<and> amt_char (last s)"
proof (induction s rule: collapse_ws.induct)
  case 1
  then show ?case by simp
next
  case (2 c cs)
  have sp: "\<not> amt_char CHR '' ''" by (simp add: amt_char_def is_digit_def)
  show ?case
  proof (cases "is_space c")
    case True
    show ?thesis
    proof (cases "collapse_ws (dropWhile is_space cs) = []")
      case e: True
      with "2.prems" True sp show ?thesis by simp
    next
      case ne: False
      with "2.prems" True have "amt_char (last (collapse_ws (dropWhile is_space cs)))" by simp
      from "2.IH"(1) [OF True ne this]
      have d: "dropWhile is_space cs \<noteq> []" "amt_char (last (dropWhile is_space cs))" by simp_all
      have "cs = takeWhile is_space cs @ dropWhile is_space cs" by simp
      then have "last cs = last (dropWhile is_space cs)" using d(1) by (metis last_appendR)
      moreover have "cs \<noteq> []" using d(1) by auto
      ultimately show ?thesis using d(2) by simp
    qed
  next
    case False
    show ?thesis
    proof (cases "collapse_ws cs = []")
      case e: True
      then have "cs = []" by (simp add: collapse_ws_Nil_iff)
      with "2.prems" False show ?thesis by simp
    next
      case ne: False
      with "2.prems" False have "amt_char (last (collapse_ws cs))" by simp
      from "2.IH"(2) [OF False ne this] show ?thesis by simp
    qed
  qed
qed

lemma first_amount:
  assumes A: "no_cents_in pre (dollar @ ip @ [CHR ''.'', c1, c2])"
    and B: "dollar = ''$'' \<or> pre = [] \<or> \<not> amt_char (last pre)"
    and dollar: "dollar = [] \<or> dollar = ''$''"
    and ip: "ip \<noteq> []" "is_digit (hd ip)" "\<forall>c\<in>set ip. is_digit c \<or> c = CHR '',''"
    and m: "\<And>t. \<exists>xs. rs usd_D (ip @ CHR ''.'' # c1 # c2 # t) = t # xs"
    and c: "is_digit c1" "is_digit c2"
  shows "\<exists>m pfx. search usd_re (trim (collapse_ws (pre @ dollar @ ip @ CHR ''.'' # c1 # c2 # post))) = Some m \<and>
           m0 m = pfx @ ip @ [CHR ''.'', c1, c2] \<and> (\<forall>c\<in>set pfx. c = CHR ''$'' \<or> is_space c)"
proof -
  define b where "b = dollar @ ip @ [CHR ''.'', c1, c2]"
  define a where "a = dropWhile is_space (collapse_ws pre)"
  define t' where "t' = rev (dropWhile is_space (rev (collapse_ws post)))"
  define y where "y = ip @ CHR ''.'' # c1 # c2 # t'"
  have dsp: "\<not> is_space CHR ''$''" "\<not> is_space CHR ''.''" "\<not> is_space CHR '',''"
    by (simp_all add: is_space_def)
  have b1: "b \<noteq> []" "2 \<le> length b" by (simp_all add: b_def)
  have b2: "\<forall>c\<in>set b. \<not> is_space c"
    using dollar ip(3) c digit_not_space dsp by (auto simp: b_def)
  have n: "trim (collapse_ws (pre @ b @ post)) = a @ b @ t'"
    by (simp only: collapse_mid [OF b1(1) b2] trim_mid [OF b1(1) b2] a_def t'_def)
  have bt: "b @ t' = dollar @ y" by (simp add: b_def y_def)
  have A1: "no_cents_in pre (b @ [])" using A by (simp add: b_def)
  have "no_cents_in (collapse_ws pre) (b @ t')"
    by (rule no_cents_in_collapse [OF b1(2) b2 A1])
  moreover have "collapse_ws pre = takeWhile is_space (collapse_ws pre) @ a" by (simp add: a_def)
  ultimately have "no_cents_in (takeWhile is_space (collapse_ws pre) @ a) (b @ t')" by simp
  then have A2: "no_cents_in a (dollar @ y)" unfolding bt by (rule no_cents_in_suffix)
  have B2: "dollar = ''$'' \<or> a = [] \<or> \<not> amt_char (last a)"
  proof (cases "dollar = ''$'' \<or> a = []")
    case True
    then show ?thesis by blast
  next
    case False
    then have ne: "a \<noteq> []" by simp
    have "collapse_ws pre = takeWhile is_space (collapse_ws pre) @ a" by (simp add: a_def)
    then have l: "last (collapse_ws pre) = last a" using ne by (metis last_appendR)
    have cne: "collapse_ws pre \<noteq> []" using ne by (auto simp: a_def)
    have "\<not> amt_char (last a)"
    proof
      assume "amt_char (last a)"
      with l have "amt_char (last (collapse_ws pre))" by simp
      from last_collapse [OF cne this] B False show False by simp
    qed
    then show ?thesis by simp
  qed
  have y1: "y \<noteq> []" "is_digit (hd y)" using ip(1,2) by (simp_all add: y_def)
  have sz: "skip (dollar @ y) = y" by (rule skip_amount [OF dollar y1])
  from m [of t'] obtain xs where xs: "rs usd_D y = t' # xs" unfolding y_def by (elim exE)
  have M: "rs usd_D (skip (dollar @ y)) = t' # xs" using xs sz by simp
  have "\<exists>m pfx. search usd_re (a @ dollar @ y) = Some m \<and>
           m0 m = pfx @ take (length (skip (dollar @ y)) - length t') (skip (dollar @ y)) \<and>
           (\<forall>c\<in>set pfx. c = CHR ''$'' \<or> is_space c)"
  proof (rule search_usd_gen [where a = a and z = "dollar @ y", OF _ M])
    fix u v assume "a = u @ v" "v \<noteq> []"
    then show "rs usd_D (skip (v @ dollar @ y)) = [] \<or> skip (v @ dollar @ y) = skip (dollar @ y)"
      by (rule early_match [OF A2 B2 dollar y1])
  qed
  then obtain mt pfx where s: "search usd_re (a @ dollar @ y) = Some mt"
    "m0 mt = pfx @ take (length (skip (dollar @ y)) - length t') (skip (dollar @ y))"
    "\<forall>c\<in>set pfx. c = CHR ''$'' \<or> is_space c"
    by blast
  have tk: "take (length y - length t') y = ip @ [CHR ''.'', c1, c2]" by (simp add: y_def)
  have e: "pre @ dollar @ ip @ CHR ''.'' # c1 # c2 # post = pre @ b @ post" by (simp add: b_def)
  have "trim (collapse_ws (pre @ dollar @ ip @ CHR ''.'' # c1 # c2 # post)) = a @ dollar @ y"
    unfolding e n bt ..
  with s show ?thesis by (auto simp: sz tk)
qed

section \<open>The value of the amount\<close>

lemma parseInt_digits:
  assumes "ds \<noteq> []" "\<forall>c\<in>set ds. is_digit c"
  shows "parseInt ds = rnd (int (digits_value ds))"
proof -
  from assms obtain h t where ds: "ds = h # t" "is_digit h" by (cases ds) auto
  have h: "\<not> is_space h" "h \<noteq> CHR ''-''" "h \<noteq> CHR ''+''"
    using ds(2) by (auto simp: is_digit_def is_space_def)
  have "takeWhile is_digit ds = ds" using assms(2) by (simp add: takeWhile_eq_all_conv)
  then show ?thesis
    using h by (simp add: parseInt_def ds(1) Let_def)
qed

lemma split_on_nosep: "sep \<notin> set a \<Longrightarrow> split_on sep a = [a]"
  by (induction a) auto

lemma split_on_one: "sep \<notin> set a \<Longrightarrow> sep \<notin> set b \<Longrightarrow> split_on sep (a @ sep # b) = [a, b]"
  by (induction a) (auto simp: split_on_nosep)

lemma rnd_not_NaN [simp]: "rnd n \<noteq> NaN"
  by (simp add: rnd_def Let_def)

lemma num_or_rnd_0 [simp]: "num_or (rnd n) (Fin 0) = rnd n"
  by (simp add: num_or_def)

lemma not_space_chars [simp]:
  "\<not> is_space CHR ''$''" "\<not> is_space CHR ''.''" "\<not> is_space CHR '',''"
  by (simp_all add: is_space_def)

lemma digit_val_le: "is_digit c \<Longrightarrow> digit_val c \<le> 9"
  by (auto simp: is_digit_def digit_val_def)

lemma digits_value_2: "digits_value [c1, c2] = 10 * digit_val c1 + digit_val c2"
  by (simp add: digits_value_def)

lemma cents_exact:
  assumes "is_digit c1" "is_digit c2"
  shows "rnd (int (digits_value [c1, c2])) = Fin (int (digits_value [c1, c2]))"
  using digit_val_le [OF assms(1)] digit_val_le [OF assms(2)]
  by (intro rnd_exact) (simp add: digits_value_2)

lemma usdToCents_core:
  assumes A: "no_cents_in pre (dollar @ ip @ [CHR ''.'', c1, c2])"
    and B: "dollar = ''$'' \<or> pre = [] \<or> \<not> amt_char (last pre)"
    and dollar: "dollar = [] \<or> dollar = ''$''"
    and ip: "ip \<noteq> []" "is_digit (hd ip)" "\<forall>c\<in>set ip. is_digit c \<or> c = CHR '',''"
    and m: "\<And>t. \<exists>xs. rs usd_D (ip @ CHR ''.'' # c1 # c2 # t) = t # xs"
    and c: "is_digit c1" "is_digit c2"
  shows "usdToCents (Some (pre @ dollar @ ip @ CHR ''.'' # c1 # c2 # post))
           = jadd (jmul (rnd (int (digits_value (filter is_digit ip)))) (Fin 100))
               (Fin (int (digits_value [c1, c2])))"
proof -
  define str where "str = pre @ dollar @ ip @ CHR ''.'' # c1 # c2 # post"
  define P where "P = (\<lambda>c. is_digit c \<or> c = CHR ''.'')"
  from first_amount [OF A B dollar ip m c, of post]
  obtain mt pfx where s: "search usd_re (trim (collapse_ws str)) = Some mt"
    "m0 mt = pfx @ ip @ [CHR ''.'', c1, c2]" "\<forall>c\<in>set pfx. c = CHR ''$'' \<or> is_space c"
    unfolding str_def by blast
  have "\<not> P x" if "x \<in> set pfx" for x
  proof -
    from that s(3) have "x = CHR ''$'' \<or> is_space x" by simp
    then show ?thesis using digit_not_space [of x] by (auto simp: P_def)
  qed
  then have f1: "filter P pfx = []"
    by (simp add: filter_empty_conv)
  have f2: "filter P ip = filter is_digit ip"
    using ip(3) by (intro filter_cong) (auto simp: P_def)
  have norm: "filter P (m0 mt) = filter is_digit ip @ CHR ''.'' # [c1, c2]"
    by (simp add: s(2) f1 f2) (simp add: P_def c)
  have fd: "filter is_digit ip \<noteq> []"
    using ip(1,2) by (cases ip) auto
  have sp: "split_on CHR ''.'' (filter is_digit ip @ CHR ''.'' # [c1, c2]) = [filter is_digit ip, [c1, c2]]"
    using c by (intro split_on_one) auto
  have p1: "parseInt (filter is_digit ip) = rnd (int (digits_value (filter is_digit ip)))"
    using fd by (intro parseInt_digits) auto
  have p2: "parseInt [c1, c2] = Fin (int (digits_value [c1, c2]))"
    using c parseInt_digits [of "[c1, c2]"] by (simp add: cents_exact)
  have n0: "num_or (Fin (int (digits_value [c1, c2]))) (Fin 0) = Fin (int (digits_value [c1, c2]))"
    by (simp add: num_or_def)
  have ne: "str \<noteq> []" by (simp add: str_def)
  have "usdToCents (Some str) = jadd (jmul (rnd (int (digits_value (filter is_digit ip)))) (Fin 100))
               (Fin (int (digits_value [c1, c2])))"
    using ne
    by (simp add: usdToCents_def s(1) Let_def norm [unfolded P_def] sp p1 p2 n0)
  then show ?thesis by (simp add: str_def)
qed

lemma amount_exact:
  assumes "0 \<le> d" "0 \<le> c" "d * 100 + c \<le> 2 ^ 53"
  shows "jadd (jmul (rnd d) (Fin 100)) (Fin c) = Fin (d * 100 + c)"
proof -
  have "rnd d = Fin d" using assms by (intro rnd_exact) simp
  moreover have "rnd (d * 100) = Fin (d * 100)" using assms by (intro rnd_exact) simp
  moreover have "rnd (d * 100 + c) = Fin (d * 100 + c)" using assms by (intro rnd_exact) simp
  ultimately show ?thesis by simp
qed

lemma digit_char_props: "d < 10 \<Longrightarrow> is_digit (digit_char d) \<and> digit_val (digit_char d) = d"
proof -
  assume "d < 10"
  then have "d = 0 \<or> d = 1 \<or> d = 2 \<or> d = 3 \<or> d = 4 \<or> d = 5 \<or> d = 6 \<or> d = 7 \<or> d = 8 \<or> d = 9"
    by arith
  then show ?thesis
    by (elim disjE) (simp_all add: digit_char_def is_digit_def digit_val_def)
qed

lemma digits_value_snoc: "digits_value (xs @ [c]) = 10 * digits_value xs + digit_val c"
  by (simp add: digits_value_def)

lemma digits_of_props:
  "digits_of n \<noteq> [] \<and> (\<forall>c\<in>set (digits_of n). is_digit c) \<and> digits_value (digits_of n) = n"
proof (induction n rule: digits_of.induct)
  case (1 n)
  show ?case
  proof (cases "n < 10")
    case True
    then show ?thesis
      using digit_char_props [of n] by (simp add: digits_of_small digits_value_def)
  next
    case False
    then have ge: "10 \<le> n" by simp
    have "n mod 10 < 10" by simp
    from digit_char_props [OF this] 1 [OF False] show ?thesis
      by (simp add: digits_of_large [OF ge] digits_value_snoc)
  qed
qed

lemma split_on_parts: "p \<in> set (split_on sep xs) \<Longrightarrow> set p \<subseteq> set xs - {sep}"
proof (induction xs arbitrary: p)
  case Nil
  then show ?case by simp
next
  case (Cons c cs)
  show ?case
  proof (cases "c = sep")
    case True
    with Cons show ?thesis by auto
  next
    case False
    obtain q qs where q: "split_on sep cs = q # qs"
      by (cases "split_on sep cs") (cases cs, auto split: if_splits list.splits)
    with Cons.prems False have "p = c # q \<or> p \<in> set qs" by simp
    moreover have "set q \<subseteq> set cs - {sep}" using Cons.IH [of q] q by simp
    moreover have "p \<in> set qs \<Longrightarrow> set p \<subseteq> set cs - {sep}" using Cons.IH [of p] q by simp
    ultimately show ?thesis using False by auto
  qed
qed

lemma split_on_nonempty: "split_on sep xs \<noteq> []"
  by (induction xs) (auto split: list.splits)

lemma nonneg_rnd: "0 \<le> n \<Longrightarrow> nonneg (rnd n)"
  using rnd_nonneg [of n] by (auto simp: nonneg_def)

lemma nonneg_jmul_100: "nonneg x \<Longrightarrow> nonneg (jmul x (Fin 100))"
proof (cases x)
  case (Fin a)
  assume "nonneg x"
  with Fin have "0 \<le> a * 100" by (simp add: nonneg_def)
  then show ?thesis using Fin by (simp add: nonneg_rnd)
qed (auto simp: nonneg_def jmul_def sign_def)

lemma nonneg_jadd: "nonneg x \<Longrightarrow> nonneg y \<Longrightarrow> nonneg (jadd x y)"
proof (cases x; cases y)
  fix a b assume "nonneg x" "nonneg y" "x = Fin a" "y = Fin b"
  then have "0 \<le> a + b" by (simp add: nonneg_def)
  then show ?thesis using \<open>x = Fin a\<close> \<open>y = Fin b\<close> by (simp add: nonneg_rnd)
qed (auto simp: nonneg_def jadd_def)

lemma parseInt_nonneg: "\<forall>c\<in>set s. is_digit c \<Longrightarrow> nonneg (num_or (parseInt s) (Fin 0))"
proof (cases "s = []")
  case True
  then show ?thesis by (simp add: parseInt_def num_or_def nonneg_def)
next
  case False
  assume "\<forall>c\<in>set s. is_digit c"
  from parseInt_digits [OF False this] show ?thesis
    by (simp add: nonneg_rnd)
qed

lemma usdToCents_nonneg: "nonneg (usdToCents v)"
proof -
  have "nonneg (num_or (parseInt (hd (split_on CHR ''.'' (filter (\<lambda>c. is_digit c \<or> c = CHR ''.'') xs)))) (Fin 0))"
      (is "nonneg (num_or (parseInt (hd ?parts)) (Fin 0))") for xs
  proof -
    have "hd ?parts \<in> set ?parts" using split_on_nonempty by simp
    from split_on_parts [OF this] show ?thesis
      by (intro parseInt_nonneg) auto
  qed
  moreover have "nonneg (num_or (parseInt (split_on CHR ''.'' (filter (\<lambda>c. is_digit c \<or> c = CHR ''.'') xs) ! 1)) (Fin 0))"
      (is "nonneg (num_or (parseInt (?parts ! 1)) (Fin 0))")
    if "1 < length (split_on CHR ''.'' (filter (\<lambda>c. is_digit c \<or> c = CHR ''.'') xs))" for xs
  proof -
    have "?parts ! 1 \<in> set ?parts" using that by simp
    from split_on_parts [OF this] show ?thesis
      by (intro parseInt_nonneg) auto
  qed
  moreover have "nonneg (num_or (parseInt ''00'') (Fin 0))"
    by (intro parseInt_nonneg) (simp add: is_digit_def)
  moreover have "nonneg (Fin 0)" by (simp add: nonneg_def)
  ultimately show ?thesis
    by (auto simp: usdToCents_def Let_def intro!: nonneg_jadd nonneg_jmul_100 split: option.splits)
qed

lemma skip_hd: "skip s \<noteq> [] \<Longrightarrow> hd (skip s) \<in> set s"
proof -
  assume a: "skip s \<noteq> []"
  have "s = take (length s - length (skip s)) s @ skip s" using skip_prefix [of s] by simp
  then have "set (skip s) \<subseteq> set s" by (metis set_append sup_ge2)
  with a show ?thesis by (meson hd_in_set subsetD)
qed

lemma search_usd_no_digit: "\<forall>c\<in>set s. \<not> is_digit c \<Longrightarrow> search usd_re s = None"
proof (induction s)
  case Nil
  have "rs usd_D (skip []) = []" by (rule rs_usd_D_nondigit) (simp add: skip_def)
  then show ?case by (simp add: exec_at_None rs_usd_re)
next
  case (Cons c s)
  have "skip (c # s) = [] \<or> \<not> is_digit (hd (skip (c # s)))"
    using skip_hd [of "c # s"] Cons.prems by blast
  then have "rs usd_D (skip (c # s)) = []" by (rule rs_usd_D_nondigit)
  then have "exec_at usd_re (c # s) = None" by (simp add: exec_at_None rs_usd_re)
  with Cons show ?case by simp
qed

lemma normalise_no_digit:
  assumes "\<forall>c\<in>set s. \<not> is_digit c"
  shows "\<forall>c\<in>set (trim (collapse_ws s)). \<not> is_digit c"
proof -
  have "set (trim (collapse_ws s)) \<subseteq> set (collapse_ws s)"
  proof
    fix x assume "x \<in> set (trim (collapse_ws s))"
    then have "x \<in> set (dropWhile is_space (rev (dropWhile is_space (collapse_ws s))))"
      by (simp add: trim_def)
    then have "x \<in> set (rev (dropWhile is_space (collapse_ws s)))" by (rule set_dropWhileD)
    then have "x \<in> set (dropWhile is_space (collapse_ws s))" by simp
    then show "x \<in> set (collapse_ws s)" by (rule set_dropWhileD)
  qed
  with collapse_no_digit [OF assms] show ?thesis by blast
qed

lemma usdToCents_grouped:
  assumes "no_cents_in pre (dollar @ g0 @ concat (map (\<lambda>g. CHR '','' # g) gs) @ [CHR ''.'', c1, c2])"
    and "dollar = ''$'' \<or> pre = [] \<or> \<not> amt_char (last pre)"
    and "dollar = [] \<or> dollar = ''$''"
    and g0: "1 \<le> length g0" "length g0 \<le> 3" "\<forall>c\<in>set g0. is_digit c"
    and gs: "\<forall>g\<in>set gs. length g = 3 \<and> (\<forall>c\<in>set g. is_digit c)"
    and c: "is_digit c1" "is_digit c2"
  shows "usdToCents (Some (pre @ dollar @ g0 @ concat (map (\<lambda>g. CHR '','' # g) gs) @ ''.'' @ [c1, c2] @ post))
          = jadd (jmul (rnd (int (digits_value (g0 @ concat gs)))) (Fin 100))
              (Fin (int (digits_value [c1, c2])))"
proof -
  define ip where "ip = g0 @ concat (map (\<lambda>g. CHR '','' # g) gs)"
  have ip1: "ip \<noteq> []" "is_digit (hd ip)"
    using g0 by (cases g0; simp add: ip_def)+
  have ip2: "\<forall>c\<in>set ip. is_digit c \<or> c = CHR '',''"
    using g0(3) gs by (auto simp: ip_def)
  have "filter is_digit (concat (map (\<lambda>g. CHR '','' # g) gs)) = concat gs"
    using gs by (induction gs) (simp_all add: filter_id_conv)
  then have fl: "filter is_digit ip = g0 @ concat gs"
    using g0(3) by (simp add: ip_def filter_id_conv)
  have m: "\<exists>xs. rs usd_D (ip @ CHR ''.'' # c1 # c2 # t) = t # xs" for t
    using rs_usd_D_grouped [OF g0 gs c, of t] by (simp add: ip_def)
  have A: "no_cents_in pre (dollar @ ip @ [CHR ''.'', c1, c2])"
    using assms(1) by (simp add: ip_def)
  from usdToCents_core [OF A assms(2,3) ip1 ip2 m c, of post]
  show ?thesis
    by (simp add: fl) (simp add: ip_def)
qed

lemma usdToCents_example: "usdToCents (Some ''$1,234.56'') = Fin 123456"
  using usdToCents_grouped [of "[]" "''$''" "''1''" "[''234'']" "CHR ''5''" "CHR ''6''" "[]"]
  by (simp add: is_digit_def digits_value_def digit_val_def rnd_exact)

text \<open>
  C1: \<open>usdToCents\<close> gives 123456 for \<open>$1,234.56\<close>; it gives 0 for \<open>null\<close>, for the empty
  string, for a string in which the pattern has no match, and in particular for a string
  without digits; its result is never negative. For a text that holds a dollar amount
  (an optional \<open>$\<close>, one to three digits, groups of a comma and three digits, a point and
  two digits) the result is the dollars times 100 plus the cents, computed in doubles,
  provided that the amount is where the pattern first matches: in the text before the
  amount no point is followed by two digits, and that text does not end in a digit or a
  comma unless the amount starts with \<open>$\<close>. Up to \<open>2 ^ 53\<close> cents the arithmetic is exact.
\<close>

theorem usdToCents_spec:
  "usdToCents (Some ''$1,234.56'') = Fin 123456 \<and>
   usdToCents None = Fin 0 \<and> usdToCents (Some []) = Fin 0 \<and>
   (search usd_re (trim (collapse_ws s)) = None \<longrightarrow> usdToCents (Some s) = Fin 0) \<and>
   ((\<forall>c\<in>set s. \<not> is_digit c) \<longrightarrow> usdToCents (Some s) = Fin 0) \<and>
   (usdToCents v = PInf \<or> (\<exists>n. 0 \<le> n \<and> usdToCents v = Fin n)) \<and>
   (no_cents_in pre (dollar @ g0 @ concat (map (\<lambda>g. CHR '','' # g) gs) @ [CHR ''.'', c1, c2]) \<and>
    (dollar = ''$'' \<or> pre = [] \<or> \<not> amt_char (last pre)) \<and> (dollar = [] \<or> dollar = ''$'') \<and>
    1 \<le> length g0 \<and> length g0 \<le> 3 \<and> (\<forall>c\<in>set g0. is_digit c) \<and>
    (\<forall>g\<in>set gs. length g = 3 \<and> (\<forall>c\<in>set g. is_digit c)) \<and>
    is_digit c1 \<and> is_digit c2
    \<longrightarrow> usdToCents (Some (pre @ dollar @ g0 @ concat (map (\<lambda>g. CHR '','' # g) gs) @ ''.'' @ [c1, c2] @ post))
          = jadd (jmul (rnd (int (digits_value (g0 @ concat gs)))) (Fin 100))
              (Fin (int (digits_value [c1, c2]))) \<and>
        (int (digits_value (g0 @ concat gs)) * 100 + int (digits_value [c1, c2]) \<le> 2 ^ 53
         \<longrightarrow> usdToCents (Some (pre @ dollar @ g0 @ concat (map (\<lambda>g. CHR '','' # g) gs) @ ''.'' @ [c1, c2] @ post))
               = Fin (int (digits_value (g0 @ concat gs)) * 100 + int (digits_value [c1, c2]))))"
proof (intro conjI impI)
  show "usdToCents (Some ''$1,234.56'') = Fin 123456" by (rule usdToCents_example)
  show "usdToCents None = Fin 0" by (simp add: usdToCents_def)
  show "usdToCents (Some []) = Fin 0" by (simp add: usdToCents_def)
  show "usdToCents (Some s) = Fin 0" if "search usd_re (trim (collapse_ws s)) = None"
    using that by (simp add: usdToCents_def)
  show "usdToCents (Some s) = Fin 0" if "\<forall>c\<in>set s. \<not> is_digit c"
    using search_usd_no_digit [OF normalise_no_digit [OF that]] by (simp add: usdToCents_def)
  show "usdToCents v = PInf \<or> (\<exists>n. 0 \<le> n \<and> usdToCents v = Fin n)"
    using usdToCents_nonneg [of v] by (auto simp: nonneg_def)
next
  assume a: "no_cents_in pre (dollar @ g0 @ concat (map (\<lambda>g. CHR '','' # g) gs) @ [CHR ''.'', c1, c2]) \<and>
    (dollar = ''$'' \<or> pre = [] \<or> \<not> amt_char (last pre)) \<and> (dollar = [] \<or> dollar = ''$'') \<and>
    1 \<le> length g0 \<and> length g0 \<le> 3 \<and> (\<forall>c\<in>set g0. is_digit c) \<and>
    (\<forall>g\<in>set gs. length g = 3 \<and> (\<forall>c\<in>set g. is_digit c)) \<and>
    is_digit c1 \<and> is_digit c2"
  then show e: "usdToCents (Some (pre @ dollar @ g0 @ concat (map (\<lambda>g. CHR '','' # g) gs) @ ''.'' @ [c1, c2] @ post))
          = jadd (jmul (rnd (int (digits_value (g0 @ concat gs)))) (Fin 100))
              (Fin (int (digits_value [c1, c2])))"
    by (intro usdToCents_grouped) simp_all
  assume "int (digits_value (g0 @ concat gs)) * 100 + int (digits_value [c1, c2]) \<le> 2 ^ 53"
  then show "usdToCents (Some (pre @ dollar @ g0 @ concat (map (\<lambda>g. CHR '','' # g) gs) @ ''.'' @ [c1, c2] @ post))
               = Fin (int (digits_value (g0 @ concat gs)) * 100 + int (digits_value [c1, c2]))"
    unfolding e by (intro amount_exact) simp_all
qed

theorem usdToCents_spec_witness:
  "no_cents_in ''Item 3: '' ''$1,234.56'' \<and> no_cents_in ''Qty 2 '' ''5.00'' \<and>
   \<not> amt_char (last ''Qty 2 '') \<and>
   is_digit CHR ''1'' \<and> is_digit CHR ''2'' \<and> is_digit CHR ''3'' \<and> is_digit CHR ''4'' \<and>
   is_digit CHR ''5'' \<and> is_digit CHR ''6'' \<and> is_digit CHR ''0'' \<and>
   \<not> is_digit CHR ''n'' \<and> \<not> is_digit CHR ''/'' \<and> \<not> is_digit CHR ''a'' \<and>
   int (digits_value ''1234'') * 100 + int (digits_value ''56'') \<le> 2 ^ 53 \<and>
   usdToCents (Some ''Item 3: $1,234.56 USD'') = Fin 123456 \<and>
   usdToCents (Some ''Qty 2 5.00'') = Fin 500 \<and>
   usdToCents (Some ''n/a'') = Fin 0"
  using usdToCents_spec [of "''n/a''" "Some []" "''Item 3: ''" "''$''" "''1''" "[''234'']"
      "CHR ''5''" "CHR ''6''" "'' USD''"]
    usdToCents_spec [of "''n/a''" "Some []" "''Qty 2 ''" "[]" "''5''" "[]"
      "CHR ''0''" "CHR ''0''" "[]"]
  by (simp add: is_digit_def digits_value_def digit_val_def amt_char_def rnd_exact)

text \<open>
  The two ways in which the result is not the dollars times 100 plus the cents of the
  amount in the text: an amount above \<open>2 ^ 53\<close> cents is rounded to a double (here
  9007199254740993 cents become 9007199254740992), and a number with two decimals that
  stands before the dollar amount is taken instead of it.
\<close>

theorem usdToCents_counterexample:
  "usdToCents (Some ''$90,071,992,547,409.93'') = Fin 9007199254740992 \<and>
   usdToCents (Some ''$90,071,992,547,409.93'') \<noteq> Fin (90071992547409 * 100 + 93) \<and>
   usdToCents (Some ''1.50 lb at $2.00'') = Fin 150 \<and>
   usdToCents (Some ''1.50 lb at $2.00'') \<noteq> Fin (2 * 100 + 0)"
proof -
  have 1: "usdToCents (Some ''$90,071,992,547,409.93'') = Fin 9007199254740992"
    using usdToCents_grouped [of "[]" "''$''" "''90''" "[''071'', ''992'', ''547'', ''409'']"
        "CHR ''9''" "CHR ''3''" "[]"]
    by (simp add: is_digit_def digits_value_def digit_val_def rnd_exact) (simp add: rnd_eval)
  have 2: "usdToCents (Some ''1.50 lb at $2.00'') = Fin 150"
    using usdToCents_grouped [of "[]" "[]" "''1''" "[]" "CHR ''5''" "CHR ''0''" "'' lb at $2.00''"]
    by (simp add: is_digit_def digits_value_def digit_val_def rnd_exact)
  show ?thesis by (simp add: 1 2)
qed

section \<open>Writing an amount and reading it back\<close>

lemma toFixed2_cents:
  assumes "0 \<le> c" "c < 2 ^ 52"
  shows "toFixed2 (round_double (of_int c / 100)) =
           digits_of (nat c div 100) @
           [CHR ''.'', digit_char (nat c mod 100 div 10), digit_char (nat c mod 10)]"
proof -
  define x where "x = round_double (of_int c / 100)"
  define y :: rat where "y = of_int c / 100"
  have key: "\<lfloor>x * 100 + 1 / 2\<rfloor> = c \<and> 0 \<le> x \<and> x < 10 ^ 21"
  proof (cases "c = 0")
    case True
    then show ?thesis by (simp add: x_def round_double_def)
  next
    case False
    with assms(1) have c1: "1 \<le> c" by simp
    then have "(1::rat) \<le> of_int c" by simp
    then have y1: "1 / 100 \<le> y" by (simp add: y_def)
    have "c \<le> 2 ^ 52 - 1" using assms(2) by simp
    then have "(of_int c :: rat) \<le> of_int (2 ^ 52 - 1)" by (simp only: of_int_le_iff)
    then have y2: "y < 2 ^ 52 / 100" by (simp add: y_def)
    have "pow2 (- 1022) \<le> 1 / 100" by (simp add: pow2_def)
    with y1 have "pow2 (- 1022) \<le> y" by linarith
    from round_double_err [OF this] have "\<bar>x - y\<bar> \<le> y / 2 ^ 53" by (simp add: x_def y_def)
    moreover have "y / 2 ^ 53 < 1 / 200" using y2 by simp
    ultimately have e: "\<bar>x - y\<bar> < 1 / 200" by linarith
    have yc: "y * 100 = of_int c" by (simp add: y_def)
    have e2: "x - y < 1 / 200" "y - x < 1 / 200" using e by linarith+
    have "of_int c \<le> x * 100 + 1 / 2" "x * 100 + 1 / 2 < of_int c + 1"
      unfolding yc [symmetric] using e2 by linarith+
    then have "\<lfloor>x * 100 + 1 / 2\<rfloor> = c" by (intro floor_unique) simp_all
    moreover have "0 \<le> x"
      using y1 unfolding x_def y_def [symmetric] by (intro round_double_nonneg) simp
    moreover have "x < 10 ^ 21" using e2 y2 by simp
    ultimately show ?thesis by simp
  qed
  then have "\<bar>x\<bar> = x" "\<not> x < 0" "\<not> 10 ^ 21 \<le> x" "nat \<lfloor>x * 100 + 1 / 2\<rfloor> = nat c"
    by simp_all
  then show ?thesis
    unfolding x_def [symmetric] by (simp add: toFixed2_def Let_def)
qed

text \<open>
  C10: formatting a number of cents with \<open>centsToUSD\<close> and parsing the result with
  \<open>usdToCents\<close> gives the number back, for every non-negative number of cents below
  \<open>2 ^ 52\<close>: in that range the quotient by 100, once rounded to a double, still
  determines the two decimals.
\<close>

theorem centsToUSD_roundtrip:
  assumes "0 \<le> c" "c < 2 ^ 52"
  shows "usdToCents (Some (centsToUSD (Fin c))) = Fin c"
proof -
  define a where "a = nat c"
  define ip where "ip = digits_of (a div 100)"
  define c1 where "c1 = digit_char (a mod 100 div 10)"
  define c2 where "c2 = digit_char (a mod 10)"
  have ip: "ip \<noteq> []" "\<forall>x\<in>set ip. is_digit x" "digits_value ip = a div 100"
    using digits_of_props [of "a div 100"] by (simp_all add: ip_def)
  have "a mod 100 div 10 < 10" by simp
  from digit_char_props [OF this] have c1: "is_digit c1" "digit_val c1 = a mod 100 div 10"
    by (simp_all add: c1_def)
  have "a mod 10 < 10" by simp
  from digit_char_props [OF this] have c2: "is_digit c2" "digit_val c2 = a mod 10"
    by (simp_all add: c2_def)
  have cu: "centsToUSD (Fin c) = [] @ [] @ ip @ CHR ''.'' # c1 # c2 # []"
    using toFixed2_cents [OF assms] by (simp add: centsToUSD_def a_def ip_def c1_def c2_def)
  have hd: "is_digit (hd ip)" using ip(1,2) by (cases ip) auto
  have cm: "\<forall>x\<in>set ip. is_digit x \<or> x = CHR '',''" using ip(2) by simp
  have m: "\<exists>xs. rs usd_D (ip @ CHR ''.'' # c1 # c2 # t) = t # xs" for t
    by (rule rs_usd_D_plain [OF ip(1,2) c1(1) c2(1)])
  have fl: "filter is_digit ip = ip" using ip(2) by (simp add: filter_id_conv)
  have v: "a div 100 * 100 + (10 * (a mod 100 div 10) + a mod 10) = a"
  proof -
    have "a mod 10 = a mod 100 mod 10" by (simp add: mod_mod_cancel)
    then have "10 * (a mod 100 div 10) + a mod 10 = a mod 100" by simp
    then show ?thesis by simp
  qed
  have d2: "digits_value [c1, c2] = 10 * (a mod 100 div 10) + a mod 10"
    by (simp add: digits_value_2 c1(2) c2(2))
  have "usdToCents (Some (centsToUSD (Fin c)))
      = jadd (jmul (rnd (int (digits_value ip))) (Fin 100)) (Fin (int (digits_value [c1, c2])))"
    unfolding cu
    using usdToCents_core [of "[]" "[]" ip c1 c2 "[]", OF _ _ _ ip(1) hd cm m c1(1) c2(1)]
    by (simp add: fl)
  also have "\<dots> = Fin (int (digits_value ip) * 100 + int (digits_value [c1, c2]))"
  proof (rule amount_exact)
    have "int (digits_value ip) * 100 + int (digits_value [c1, c2]) = int a"
      using v by (simp add: ip(3) d2 flip: of_nat_mult of_nat_add del: of_nat_mult of_nat_add)
    also have "\<dots> = c" using assms(1) by (simp add: a_def)
    finally show "int (digits_value ip) * 100 + int (digits_value [c1, c2]) \<le> 2 ^ 53"
      using assms(2) by simp
  qed simp_all
  also have "int (digits_value ip) * 100 + int (digits_value [c1, c2]) = int a"
    using v by (simp add: ip(3) d2 flip: of_nat_mult of_nat_add del: of_nat_mult of_nat_add)
  finally show ?thesis using assms(1) by (simp add: a_def)
qed

lemma centsToUSD_123456: "centsToUSD (Fin 123456) = ''1234.56''"
  using toFixed2_cents [of 123456]
  by (simp add: centsToUSD_def digits_of_small digits_of_large digit_char_def)

theorem centsToUSD_roundtrip_witness:
  "(0::int) \<le> 123456 \<and> (123456::int) < 2 ^ 52 \<and> centsToUSD (Fin 123456) = ''1234.56'' \<and>
   usdToCents (Some (centsToUSD (Fin 123456))) = Fin 123456"
  using centsToUSD_roundtrip [of 123456]
  by (simp add: centsToUSD_123456)

text \<open>
  Above \<open>2 ^ 52\<close> the round trip can fail: the quotient of 7036874417766401 by 100 is
  rounded to the double 70368744177664.015625, which \<open>toFixed(2)\<close> writes as
  \<open>70368744177664.02\<close>.
\<close>

lemma centsToUSD_big: "centsToUSD (Fin 7036874417766401) = ''70368744177664.02''"
  by (simp add: centsToUSD_def toFixed2_def rnd_eval digits_of_small digits_of_large digit_char_def)

theorem centsToUSD_roundtrip_counterexample:
  "centsToUSD (Fin 7036874417766401) = ''70368744177664.02'' \<and>
   usdToCents (Some (centsToUSD (Fin 7036874417766401))) = Fin 7036874417766402 \<and>
   usdToCents (Some (centsToUSD (Fin 7036874417766401))) \<noteq> Fin 7036874417766401"
proof -
  have "usdToCents (Some ''70368744177664.02'') = Fin 7036874417766402"
    using usdToCents_core [of "[]" "[]" "''70368744177664''" "CHR ''0''" "CHR ''2''" "[]"]
      rs_usd_D_plain [of "''70368744177664''" "CHR ''0''" "CHR ''2''"]
    by (simp add: is_digit_def digits_value_def digit_val_def rnd_exact)
  then show ?thesis by (simp add: centsToUSD_big)
qed

section \<open>The quantity prefix of an article name\<close>

lemma ms_Star_Atom_Nil: "ms (Star (Atom p)) [] = [([], [])]"
  by simp

lemma ms_Star_Atom_Cons:
  "ms (Star (Atom p)) (c # t) =
     (if p c then map (\<lambda>y. (fst y, snd y)) (ms (Star (Atom p)) t) @ [(c # t, [])] else [(c # t, [])])"
  by (subst ms.simps) simp

lemma ms_Star_Atom: "ms (Star (Atom p)) s = map (\<lambda>r. (r, [])) (rs (Star (Atom p)) s)"
proof (induction s)
  case Nil
  then show ?case by (simp add: rs_Star_Atom_Nil)
next
  case (Cons c t)
  then show ?case
    by (simp add: ms_Star_Atom_Cons rs_Star_Atom_Cons comp_def del: ms.simps)
qed

lemma ms_Plus_Atom:
  "ms (Plus (Atom p)) s = map (\<lambda>r. (r, [])) (rs (Plus (Atom p)) s)"
proof (cases s)
  case Nil
  have "ms (Plus (Atom p)) [] = []" by (simp add: Plus_def)
  moreover have "rs (Plus (Atom p)) [] = []" by (simp add: rs_Plus_Atom)
  ultimately show ?thesis using Nil by simp
next
  case (Cons c t)
  have "ms (Plus (Atom p)) (c # t) = (if p c then ms (Star (Atom p)) t else [])"
    by (simp add: Plus_def del: ms.simps(5))
  moreover have "rs (Plus (Atom p)) (c # t) = (if p c then rs (Star (Atom p)) t else [])"
    by (simp add: rs_Plus_Atom)
  ultimately show ?thesis using Cons by (simp add: ms_Star_Atom del: ms.simps)
qed

lemma ms_Seq_nocap:
  "ms a s = map (\<lambda>r. (r, [])) xs \<Longrightarrow> ms (Seq a b) s = concat (map (ms b) xs)"
  by (simp add: comp_def)

lemma ms_Grp_nocap:
  "ms a s = map (\<lambda>r. (r, [])) xs \<Longrightarrow>
   ms (Grp i a) s = map (\<lambda>r. (r, [(i, take (length s - length r) s)])) xs"
  by (simp add: comp_def)

lemma ms_Seq_Plus_Atom:
  assumes "\<And>c t. p c \<Longrightarrow> ms b (c # t) = []"
  shows "ms (Seq (Plus (Atom p)) b) s =
     (case s of [] \<Rightarrow> [] | c # t \<Rightarrow> if p c then ms b (dropWhile p t) else [])"
  unfolding ms_Seq_nocap [OF ms_Plus_Atom]
  by (rule plus_atom_then) (rule assms)

lemma ms_Seq_Grp_Plus_Atom:
  assumes "\<And>c t. p c \<Longrightarrow> ms b (c # t) = []"
  shows "ms (Seq (Grp i (Plus (Atom p))) b) s =
     (case s of [] \<Rightarrow> []
      | c # t \<Rightarrow> if p c
          then map (\<lambda>y. (fst y, snd y @ [(i, takeWhile p s)])) (ms b (dropWhile p t)) else [])"
proof -
  define g where "g = (\<lambda>r. map (\<lambda>y. (fst y, snd y @ [(i, take (length s - length r) s)])) (ms b r))"
  have g0: "g (c # t) = []" if "p c" for c t
    using assms [OF that] by (simp add: g_def)
  have "ms (Seq (Grp i (Plus (Atom p))) b) s = concat (map g (rs (Plus (Atom p)) s))"
    by (simp add: ms_Grp_nocap [OF ms_Plus_Atom] comp_def g_def del: ms.simps(6))
  also have "\<dots> = (case s of [] \<Rightarrow> [] | c # t \<Rightarrow> if p c then g (dropWhile p t) else [])"
    by (rule plus_atom_then) (rule g0)
  also have "\<dots> = (case s of [] \<Rightarrow> []
      | c # t \<Rightarrow> if p c
          then map (\<lambda>y. (fst y, snd y @ [(i, takeWhile p s)])) (ms b (dropWhile p t)) else [])"
  proof (cases s)
    case Nil
    then show ?thesis by simp
  next
    case (Cons c t)
    have "take (length ((c # takeWhile p t) @ dropWhile p t) - length (dropWhile p t))
            ((c # takeWhile p t) @ dropWhile p t) = c # takeWhile p t"
      by (simp del: takeWhile_dropWhile_id)
    then have "take (length (c # t) - length (dropWhile p t)) (c # t) = c # takeWhile p t"
      by simp
    with Cons show ?thesis by (simp add: g_def)
  qed
  finally show ?thesis .
qed

lemma to_upper_O: "to_upper c = CHR ''O'' \<longleftrightarrow> c = CHR ''o'' \<or> c = CHR ''O''"
  by (auto simp: to_upper_def split: if_splits)

lemma to_upper_F: "to_upper c = CHR ''F'' \<longleftrightarrow> c = CHR ''f'' \<or> c = CHR ''F''"
  by (auto simp: to_upper_def split: if_splits)

lemma to_upper_X: "to_upper c = CHR ''X'' \<longleftrightarrow> c = CHR ''x'' \<or> c = CHR ''X''"
  by (auto simp: to_upper_def split: if_splits)

lemma to_upper_consts [simp]:
  "to_upper CHR ''o'' = CHR ''O''" "to_upper CHR ''f'' = CHR ''F''" "to_upper CHR ''x'' = CHR ''X''"
  by (simp_all add: to_upper_def)

lemma ms_kw:
  "ms kw_re u =
     (case u of a # b # v \<Rightarrow> if to_upper a = CHR ''O'' \<and> to_upper b = CHR ''F'' then [(v, [(2, [a, b])])] else []
      | _ \<Rightarrow> []) @
     (case u of a # v \<Rightarrow> if to_upper a = CHR ''X'' then [(v, [(2, [a])])] else [] | [] \<Rightarrow> [])"
  by (cases u; cases "tl u") (auto simp: kw_re_def)

lemma ms_kw_space: "is_space c \<Longrightarrow> ms kw_re (c # t) = []"
  by (cases t) (auto simp: ms_kw to_upper_O to_upper_X is_space_def)

lemma ms_kw_match: "is_kw kw \<Longrightarrow> ms kw_re (kw @ v) = [(v, [(2, kw)])]"
  by (cases kw; cases "tl kw"; cases "tl (tl kw)") (auto simp: ms_kw is_kw_def split: list.splits)

lemma ms_kw_elim:
  assumes "x \<in> set (ms kw_re u)"
  shows "\<exists>kw. is_kw kw \<and> u = kw @ fst x \<and> snd x = [(2, kw)]"
proof -
  from assms consider a b v where "u = a # b # v" "to_upper a = CHR ''O''" "to_upper b = CHR ''F''" "x = (v, [(2, [a, b])])"
    | a v where "u = a # v" "to_upper a = CHR ''X''" "x = (v, [(2, [a])])"
    by (cases u; cases "tl u") (auto simp: ms_kw split: if_splits)
  then show ?thesis
  proof cases
    case 1
    then show ?thesis by (intro exI [of _ "[a, b]"]) (simp add: is_kw_def)
  next
    case 2
    then show ?thesis by (intro exI [of _ "[a]"]) (simp add: is_kw_def)
  qed
qed

lemma quantity_re_eq: "quantity_re = Seq (Grp 1 (Plus (Atom is_digit))) q_mid"
  by (simp add: quantity_re_def q_mid_def q_tail_def kw_re_def)

lemma ms_q_tail_space: "is_space c \<Longrightarrow> ms q_tail (c # t) = []"
  by (simp add: q_tail_def ms_kw_space del: ms.simps(5,6))

lemma ms_q_mid:
  "ms q_mid s = (case s of [] \<Rightarrow> [] | c # t \<Rightarrow> if is_space c then ms q_tail (dropWhile is_space t) else [])"
  unfolding q_mid_def by (rule ms_Seq_Plus_Atom) (rule ms_q_tail_space)

lemma ms_q_mid_digit: "is_digit c \<Longrightarrow> ms q_mid (c # t) = []"
  using digit_not_space [of c] by (simp add: ms_q_mid)

lemma ms_quantity_re:
  "ms quantity_re s =
     (case s of [] \<Rightarrow> []
      | c # t \<Rightarrow> if is_digit c
          then map (\<lambda>y. (fst y, snd y @ [(1, takeWhile is_digit s)])) (ms q_mid (dropWhile is_digit t))
          else [])"
  unfolding quantity_re_eq by (rule ms_Seq_Grp_Plus_Atom) (rule ms_q_mid_digit)

lemma ms_q_tail_match:
  assumes "is_kw kw" "w2 \<noteq> []" "\<forall>c\<in>set w2. is_space c" "r = [] \<or> \<not> is_space (hd r)"
  shows "\<exists>xs. ms q_tail (kw @ w2 @ r) = (r, [(2, kw)]) # xs"
proof -
  from assms(2,3) obtain c t where w2: "w2 = c # t" "is_space c" "\<forall>x\<in>set t. is_space x"
    by (cases w2) auto
  have dw: "dropWhile is_space (t @ r) = r"
    using w2(3) assms(4) by (cases r) (simp_all add: dropWhile_append3)
  obtain xs where xs: "rs (Star (Atom is_space)) (t @ r) = r # xs"
    using star_atom_hd [of is_space "t @ r"] unfolding dw by (elim exE)
  have "ms (Plus (Atom is_space)) (w2 @ r) = map (\<lambda>r. (r, [])) (r # xs)"
    by (simp add: ms_Plus_Atom rs_Plus_Atom w2 xs del: ms.simps)
  then show ?thesis
    by (simp add: q_tail_def ms_kw_match [OF assms(1)] del: ms.simps(5,6))
qed

lemma ms_q_tail_elim:
  assumes "ms q_tail u \<noteq> []"
  shows "\<exists>kw c t. is_kw kw \<and> is_space c \<and> u = kw @ c # t"
proof -
  from assms obtain x where x: "x \<in> set (ms kw_re u)" "ms (Plus (Atom is_space)) (fst x) \<noteq> []"
    unfolding q_tail_def by (auto simp del: ms.simps(5,6))
  from ms_kw_elim [OF x(1)] obtain kw where kw: "is_kw kw" "u = kw @ fst x" by blast
  from x(2) have "rs (Plus (Atom is_space)) (fst x) \<noteq> []"
    by (simp add: ms_Plus_Atom del: ms.simps)
  then obtain c t where "fst x = c # t" "is_space c"
    by (cases "fst x") (auto simp: rs_Plus_Atom split: if_splits)
  with kw show ?thesis by blast
qed

lemma is_kw_hd: "is_kw kw \<Longrightarrow> kw \<noteq> [] \<and> \<not> is_space (hd kw)"
  by (cases kw) (auto simp: is_kw_def to_upper_O to_upper_X is_space_def)

lemma exec_at_hd:
  "ms r s = x # xs \<Longrightarrow>
   exec_at r s = Some \<lparr>m0 = take (length s - length (fst x)) s, groups = snd x, rest = fst x\<rparr>"
  by (simp add: exec_at_def)

lemma quantity_match:
  assumes "ds \<noteq> []" "\<forall>c\<in>set ds. is_digit c" "w1 \<noteq> []" "\<forall>c\<in>set w1. is_space c"
    and "is_kw kw" "w2 \<noteq> []" "\<forall>c\<in>set w2. is_space c" "r = [] \<or> \<not> is_space (hd r)"
  shows "\<exists>xs. ms quantity_re (ds @ w1 @ kw @ w2 @ r) = (r, [(2, kw), (1, ds)]) # xs"
proof -
  from assms(1,2) obtain h ds' where ds: "ds = h # ds'" "is_digit h" "\<forall>c\<in>set ds'. is_digit c"
    by (cases ds) auto
  from assms(3,4) obtain c1 t1 where w1: "w1 = c1 # t1" "is_space c1" "\<forall>c\<in>set t1. is_space c"
    by (cases w1) auto
  from is_kw_hd [OF assms(5)] obtain k kw' where kw: "kw = k # kw'" "\<not> is_space k"
    by (cases kw) auto
  have nd: "\<not> is_digit c1" using digit_not_space [of c1] w1(2) by blast
  have d1: "dropWhile is_digit (ds' @ w1 @ kw @ w2 @ r) = w1 @ kw @ w2 @ r"
    using ds(3) nd by (simp add: w1(1) dropWhile_append3)
  have t1: "takeWhile is_digit (ds @ w1 @ kw @ w2 @ r) = ds"
    using assms(2) nd by (simp add: w1(1) takeWhile_append2 del: takeWhile.simps)
      (simp add: takeWhile_tail)
  have d2: "dropWhile is_space (t1 @ kw @ w2 @ r) = kw @ w2 @ r"
    using w1(3) kw(2) by (simp add: kw(1) dropWhile_append3)
  from ms_q_tail_match [OF assms(5-8)] obtain xs where
    xs: "ms q_tail (kw @ w2 @ r) = (r, [(2, kw)]) # xs" by (elim exE)
  have mid: "ms q_mid (w1 @ kw @ w2 @ r) = (r, [(2, kw)]) # xs"
    by (simp add: ms_q_mid w1(1,2) d2 xs)
  have "ms quantity_re (ds @ w1 @ kw @ w2 @ r) =
      map (\<lambda>y. (fst y, snd y @ [(1, takeWhile is_digit (ds @ w1 @ kw @ w2 @ r))]))
        (ms q_mid (dropWhile is_digit (ds' @ w1 @ kw @ w2 @ r)))"
    by (simp add: ms_quantity_re ds(1,2))
  then show ?thesis
    by (simp add: t1 d1 mid)
qed

lemma quantity_elim:
  assumes "ms quantity_re s \<noteq> []"
  shows "\<exists>ds w1 kw w2 r. s = ds @ w1 @ kw @ w2 @ r \<and> ds \<noteq> [] \<and> (\<forall>c\<in>set ds. is_digit c) \<and>
     w1 \<noteq> [] \<and> (\<forall>c\<in>set w1. is_space c) \<and> is_kw kw \<and> w2 \<noteq> [] \<and> (\<forall>c\<in>set w2. is_space c)"
proof -
  from assms obtain c t where s: "s = c # t" "is_digit c" "ms q_mid (dropWhile is_digit t) \<noteq> []"
    by (cases s) (auto simp: ms_quantity_re split: if_splits)
  from s(3) obtain c1 t1 where r1: "dropWhile is_digit t = c1 # t1" "is_space c1"
    "ms q_tail (dropWhile is_space t1) \<noteq> []"
    by (cases "dropWhile is_digit t") (auto simp: ms_q_mid split: if_splits)
  from ms_q_tail_elim [OF r1(3)] obtain kw c2 t2 where
    r2: "is_kw kw" "is_space c2" "dropWhile is_space t1 = kw @ c2 # t2" by blast
  define ds where "ds = c # takeWhile is_digit t"
  define w1 where "w1 = c1 # takeWhile is_space t1"
  have "t = takeWhile is_digit t @ dropWhile is_digit t" by simp
  also have "dropWhile is_digit t = c1 # (takeWhile is_space t1 @ dropWhile is_space t1)"
    by (simp add: r1(1))
  finally have "s = ds @ w1 @ kw @ [c2] @ t2"
    by (simp add: s(1) ds_def w1_def r2(3))
  moreover have "\<forall>x\<in>set ds. is_digit x"
    using s(2) by (auto simp: ds_def dest: set_takeWhileD)
  moreover have "\<forall>x\<in>set w1. is_space x"
    using r1(2) by (auto simp: w1_def dest: set_takeWhileD)
  moreover have "ds \<noteq> []" "w1 \<noteq> []" by (simp_all add: ds_def w1_def)
  ultimately show ?thesis
    using r2(1,2) by (intro exI [of _ ds] exI [of _ w1] exI [of _ kw] exI [of _ "[c2]"] exI [of _ t2]) simp
qed

lemma quantity_prefix:
  assumes "ds \<noteq> []" "\<forall>c\<in>set ds. is_digit c" "w1 \<noteq> []" "\<forall>c\<in>set w1. is_space c"
    and "is_kw kw" "w2 \<noteq> []" "\<forall>c\<in>set w2. is_space c" "r = [] \<or> \<not> is_space (hd r)"
  shows "quantity_detection (ds @ w1 @ kw @ w2 @ r) = (num_or (rnd (int (digits_value ds))) (Fin 1), r)"
proof -
  from quantity_match [OF assms] obtain xs where
    "ms quantity_re (ds @ w1 @ kw @ w2 @ r) = (r, [(2, kw), (1, ds)]) # xs" by (elim exE)
  from exec_at_hd [OF this] parseInt_digits [OF assms(1,2)]
  show ?thesis
    by (simp add: quantity_detection_def group_def)
qed

lemma quantity_example: "quantity_detection ''2 x Widget'' = (Fin 2, ''Widget'')"
  using quantity_prefix [of "''2''" "'' ''" "''x''" "'' ''" "''Widget''"]
  by (simp add: is_digit_def is_space_def is_kw_def to_upper_def digits_value_def digit_val_def
      num_or_def rnd_exact)

text \<open>
  C3: the quantity detection of the item loop, applied to the article name (the text after
  \<open>slice(0, 80)\<close> and the replacement of \<open>;\<close>). For \<open>2 x Widget\<close> the count is 2 and the name is
  \<open>Widget\<close>. For a name made of a numeral, white space, \<open>of\<close> or \<open>x\<close> in any case, white space
  and a rest that does not start with white space, the name becomes the rest, whatever
  the value \<open>n\<close> of the numeral; the count is the double nearest to \<open>n\<close>, which is \<open>n\<close> itself
  up to \<open>2 ^ 53\<close>, and it is 1 when \<open>n\<close> is 0. For a name that does not start with a
  numeral, white space, \<open>of\<close> or \<open>x\<close> and white space, the count is 1 and the name is
  unchanged.
\<close>

theorem quantity_detection_spec:
  "quantity_detection ''2 x Widget'' = (Fin 2, ''Widget'') \<and>
   (ds \<noteq> [] \<and> (\<forall>c\<in>set ds. is_digit c) \<and> w1 \<noteq> [] \<and> (\<forall>c\<in>set w1. is_space c) \<and>
    is_kw kw \<and> w2 \<noteq> [] \<and> (\<forall>c\<in>set w2. is_space c) \<and> (r = [] \<or> \<not> is_space (hd r))
    \<longrightarrow> quantity_detection (ds @ w1 @ kw @ w2 @ r) = (num_or (rnd (int (digits_value ds))) (Fin 1), r) \<and>
        (0 < digits_value ds \<and> int (digits_value ds) \<le> 2 ^ 53
           \<longrightarrow> quantity_detection (ds @ w1 @ kw @ w2 @ r) = (Fin (int (digits_value ds)), r)) \<and>
        (digits_value ds = 0 \<longrightarrow> quantity_detection (ds @ w1 @ kw @ w2 @ r) = (Fin 1, r))) \<and>
   (\<not> (\<exists>ds w1 kw w2 r. name = ds @ w1 @ kw @ w2 @ r \<and> ds \<noteq> [] \<and> (\<forall>c\<in>set ds. is_digit c) \<and>
         w1 \<noteq> [] \<and> (\<forall>c\<in>set w1. is_space c) \<and> is_kw kw \<and> w2 \<noteq> [] \<and> (\<forall>c\<in>set w2. is_space c))
    \<longrightarrow> quantity_detection name = (Fin 1, name))"
proof (intro conjI impI)
  show "quantity_detection ''2 x Widget'' = (Fin 2, ''Widget'')" by (rule quantity_example)
next
  assume a: "ds \<noteq> [] \<and> (\<forall>c\<in>set ds. is_digit c) \<and> w1 \<noteq> [] \<and> (\<forall>c\<in>set w1. is_space c) \<and>
    is_kw kw \<and> w2 \<noteq> [] \<and> (\<forall>c\<in>set w2. is_space c) \<and> (r = [] \<or> \<not> is_space (hd r))"
  then have h: "ds \<noteq> []" "\<forall>c\<in>set ds. is_digit c" "w1 \<noteq> []" "\<forall>c\<in>set w1. is_space c"
    "is_kw kw" "w2 \<noteq> []" "\<forall>c\<in>set w2. is_space c" "r = [] \<or> \<not> is_space (hd r)"
    by simp_all
  show e: "quantity_detection (ds @ w1 @ kw @ w2 @ r) = (num_or (rnd (int (digits_value ds))) (Fin 1), r)"
    by (rule quantity_prefix [OF h])
  show "quantity_detection (ds @ w1 @ kw @ w2 @ r) = (Fin (int (digits_value ds)), r)"
    if "0 < digits_value ds \<and> int (digits_value ds) \<le> 2 ^ 53"
  proof -
    from that have "rnd (int (digits_value ds)) = Fin (int (digits_value ds))"
      by (intro rnd_exact) simp
    with that show ?thesis unfolding e by (simp add: num_or_def)
  qed
  show "quantity_detection (ds @ w1 @ kw @ w2 @ r) = (Fin 1, r)" if "digits_value ds = 0"
    unfolding e using that by (simp add: num_or_def rnd_exact)
next
  assume n: "\<not> (\<exists>ds w1 kw w2 r. name = ds @ w1 @ kw @ w2 @ r \<and> ds \<noteq> [] \<and> (\<forall>c\<in>set ds. is_digit c) \<and>
         w1 \<noteq> [] \<and> (\<forall>c\<in>set w1. is_space c) \<and> is_kw kw \<and> w2 \<noteq> [] \<and> (\<forall>c\<in>set w2. is_space c))"
  have "ms quantity_re name = []"
  proof (rule ccontr)
    assume "ms quantity_re name \<noteq> []"
    from quantity_elim [OF this] n show False by blast
  qed
  then show "quantity_detection name = (Fin 1, name)"
    by (simp add: quantity_detection_def exec_at_def)
qed

theorem quantity_detection_spec_witness:
  "is_digit CHR ''1'' \<and> is_digit CHR ''2'' \<and> is_space CHR '' '' \<and> is_kw ''Of'' \<and>
   \<not> is_space CHR ''W'' \<and> 0 < digits_value ''12'' \<and> int (digits_value ''12'') \<le> 2 ^ 53 \<and>
   quantity_detection ''12 Of  Widget; large'' = (Fin 12, ''Widget; large'') \<and>
   quantity_detection ''Widget 2 x'' = (Fin 1, ''Widget 2 x'')"
proof -
  have 1: "is_digit CHR ''1''" "is_digit CHR ''2''" "is_space CHR '' ''" "is_kw ''Of''"
    "\<not> is_space CHR ''W''" "0 < digits_value ''12''" "int (digits_value ''12'') \<le> 2 ^ 53"
    by (simp_all add: is_digit_def is_space_def is_kw_def to_upper_def digits_value_def digit_val_def)
  have 2: "\<not> (\<exists>ds w1 kw w2 r. ''Widget 2 x'' = ds @ w1 @ kw @ w2 @ r \<and> ds \<noteq> [] \<and>
      (\<forall>c\<in>set ds. is_digit c) \<and> w1 \<noteq> [] \<and> (\<forall>c\<in>set w1. is_space c) \<and> is_kw kw \<and>
      w2 \<noteq> [] \<and> (\<forall>c\<in>set w2. is_space c))"
  proof
    assume "\<exists>ds w1 kw w2 r. ''Widget 2 x'' = ds @ w1 @ kw @ w2 @ r \<and> ds \<noteq> [] \<and>
      (\<forall>c\<in>set ds. is_digit c) \<and> w1 \<noteq> [] \<and> (\<forall>c\<in>set w1. is_space c) \<and> is_kw kw \<and>
      w2 \<noteq> [] \<and> (\<forall>c\<in>set w2. is_space c)"
    then obtain ds t where "''Widget 2 x'' = ds @ t" "ds \<noteq> []" "\<forall>c\<in>set ds. is_digit c"
      by blast
    then have "is_digit CHR ''W''" by (cases ds) auto
    then show False by (simp add: is_digit_def)
  qed
  have 3: "digits_value ''12'' = 12"
    by (simp add: digits_value_def digit_val_def)
  from quantity_detection_spec [of "''12''" "'' ''" "''Of''" "''  ''" "''Widget; large''" "''Widget 2 x''"] 1 2
  show ?thesis by (simp add: 3 num_or_def rnd_exact)
qed

text \<open>
  The two ways in which the result is not what a count \<open>n\<close> and an unchanged name would
  be: the prefix \<open>0 x\<close> is removed although the count is 1, and a count above \<open>2 ^ 53\<close> is
  rounded to a double.
\<close>

theorem quantity_detection_counterexample:
  "quantity_detection ''0 x Widget'' = (Fin 1, ''Widget'') \<and>
   quantity_detection ''0 x Widget'' \<noteq> (Fin 1, ''0 x Widget'') \<and>
   quantity_detection ''9007199254740993 x Widget'' = (Fin 9007199254740992, ''Widget'') \<and>
   quantity_detection ''9007199254740993 x Widget'' \<noteq> (Fin 9007199254740993, ''Widget'')"
proof -
  have 1: "quantity_detection ''0 x Widget'' = (Fin 1, ''Widget'')"
    using quantity_prefix [of "''0''" "'' ''" "''x''" "'' ''" "''Widget''"]
    by (simp add: is_digit_def is_space_def is_kw_def to_upper_def digits_value_def digit_val_def
        num_or_def rnd_exact)
  have 2: "quantity_detection ''9007199254740993 x Widget'' = (Fin 9007199254740992, ''Widget'')"
    using quantity_prefix [of "''9007199254740993''" "'' ''" "''x''" "'' ''" "''Widget''"]
    by (simp add: is_digit_def is_space_def is_kw_def to_upper_def digits_value_def digit_val_def
        num_or_def) (simp add: rnd_eval)
  show ?thesis by (simp add: 1 2)
qed

section \<open>Orders and shipments\<close>

lemma textOrEmpty_text_of: "textOrEmpty el selector = Inr (text_of el selector)"
  using textOrEmpty_Inr [of el selector] by (auto simp: text_of_def)

lemma process_items_eq:
  "process_items od st ret items tot csv =
     (Inr \<lparr>shipmentTotal = foldl jadd (shipmentTotal tot) (map item_line items),
           shipmentTotalAfterReturns =
             (if ret then shipmentTotalAfterReturns tot
              else foldl jadd (shipmentTotalAfterReturns tot) (map item_line items))\<rparr>,
      csv @ concat (map (\<lambda>i. csv_row (item_row od st ret i)) items))"
proof (induction items arbitrary: tot csv)
  case Nil
  then show ?case by simp
next
  case (Cons i items)
  show ?case
    by (simp add: textOrEmpty_text_of Cons.IH Let_def split_beta writeCSVRow_def item_row_def
        item_count_def item_name_def item_single_def item_line_def)
qed

lemma processShipment_ok:
  assumes "queryAll shipEl ARTICLE_SHIPMENT = Inr items"
  shows "processShipment shipEl od csv =
     (Inr \<lparr>shipmentTotal = shipment_sum shipEl, shipmentTotalAfterReturns = shipment_paid shipEl\<rparr>,
      csv @ concat (map csv_row (shipment_rows od shipEl)))"
  by (simp add: processShipment_def textOrEmpty_text_of assms process_items_eq Let_def
      shipment_sum_def shipment_paid_def shipment_rows_def shipment_items_def shipment_state_def
      shipment_returned_def comp_def)

lemma processShipment_throws:
  assumes "queryAll shipEl ARTICLE_SHIPMENT = Inl e"
  shows "processShipment shipEl od csv = (Inl e, csv)"
  by (simp add: processShipment_def textOrEmpty_text_of assms Let_def)

lemma processShipment_csv:
  "snd (processShipment shipEl od csv) = csv @ concat (map csv_row (shipment_rows od shipEl))"
proof (cases "queryAll shipEl ARTICLE_SHIPMENT")
  case (Inl e)
  then show ?thesis
    by (simp add: processShipment_throws shipment_rows_def shipment_items_def)
next
  case (Inr items)
  then show ?thesis by (simp add: processShipment_ok)
qed


lemma calculate_eq:
  "calculateAndWriteShippingCosts csv od p t =
     (shipping_cost p t,
      if jless (Fin 0) (shipping_cost p t) then csv @ csv_row (shipping_row od (shipping_cost p t))
      else csv)"
  by (simp add: calculateAndWriteShippingCosts_def Let_def writeCSVRow_def shipping_row_def
      shipping_cost_def)



lemma length_item_row: "length (item_row od st ret i) = 7"
  by (simp add: item_row_def)

lemma length_shipment_rows: "r \<in> set (shipment_rows od s) \<Longrightarrow> length r = 7"
  by (auto simp: shipment_rows_def length_item_row)

lemma process_shipments_csv:
  "\<exists>rows. snd (process_shipments od ships acc csv) = csv @ concat (map csv_row rows) \<and>
          (\<forall>r\<in>set rows. length r = 7)"
proof (induction ships arbitrary: acc csv)
  case Nil
  show ?case by (intro exI [of _ "[]"]) simp
next
  case (Cons s ships)
  obtain a b where acc: "acc = (a, b)" by (cases acc)
  define csv' where "csv' = csv @ concat (map csv_row (shipment_rows od s))"
  show ?case
  proof (cases "fst (processShipment s od csv)")
    case (Inl e)
    then have "process_shipments od (s # ships) acc csv = (Inl e, csv')"
      using processShipment_csv [of s od csv]
      by (cases "processShipment s od csv") (simp add: acc csv'_def)
    then show ?thesis
      using length_shipment_rows [of _ od s]
      by (intro exI [of _ "shipment_rows od s"]) (simp add: csv'_def)
  next
    case (Inr tot)
    then have eq: "process_shipments od (s # ships) acc csv =
        process_shipments od ships (jadd a (shipmentTotal tot), jadd b (shipmentTotalAfterReturns tot)) csv'"
      using processShipment_csv [of s od csv]
      by (cases "processShipment s od csv") (simp add: acc csv'_def)
    from Cons [of "(jadd a (shipmentTotal tot), jadd b (shipmentTotalAfterReturns tot))" csv']
    obtain rows where rows: "snd (process_shipments od ships
        (jadd a (shipmentTotal tot), jadd b (shipmentTotalAfterReturns tot)) csv') = csv' @ concat (map csv_row rows)"
      "\<forall>r\<in>set rows. length r = 7" by blast
    show ?thesis
      using rows length_shipment_rows [of _ od s]
      by (intro exI [of _ "shipment_rows od s @ rows"]) (auto simp: eq csv'_def)
  qed
qed


lemma processOrder_csv:
  "\<exists>rows. snd (processOrder orderEl csv) = csv @ concat (map csv_row rows) \<and>
          (\<forall>r\<in>set rows. length r = 7)"
proof (cases "queryAll orderEl ORDER_SHIPMENTS")
  case (Inl e)
  then have "snd (processOrder orderEl csv) = csv"
    by (simp add: processOrder_def textOrEmpty_text_of Let_def)
  then show ?thesis by (intro exI [of _ "[]"]) simp
next
  case (Inr ships)
  from process_shipments_csv [of "order_date orderEl" ships "(Fin 0, Fin 0)" csv]
  obtain rows where rows: "snd (process_shipments (order_date orderEl) ships (Fin 0, Fin 0) csv)
        = csv @ concat (map csv_row rows)" "\<forall>r\<in>set rows. length r = 7" by blast
  show ?thesis
  proof (cases "process_shipments (order_date orderEl) ships (Fin 0, Fin 0) csv")
    case (Pair res csv')
    show ?thesis
    proof (cases res)
      case (Inl e)
      with Pair Inr rows show ?thesis
        by (intro exI [of _ rows])
          (simp add: processOrder_def textOrEmpty_text_of Let_def order_date_def)
    next
      case r: (Inr tots)
      obtain x y where tots: "tots = (x, y)" by (cases tots)
      define cost where "cost = shipping_cost (order_price orderEl) x"
      have sn: "snd (processOrder orderEl csv) =
          csv' @ (if jless (Fin 0) cost then csv_row (shipping_row (order_date orderEl) cost) else [])"
        using Pair Inr r tots
        by (simp add: processOrder_def textOrEmpty_text_of Let_def order_date_def order_price_def
              calculate_eq cost_def)
      have csv': "csv' = csv @ concat (map csv_row rows)"
        using rows(1) Pair by simp
      show ?thesis
      proof (cases "jless (Fin 0) cost")
        case True
        then show ?thesis
          using rows(2)
          by (intro exI [of _ "rows @ [shipping_row (order_date orderEl) cost]"])
            (simp add: sn csv' shipping_row_def)
      next
        case False
        then show ?thesis
          using rows(2) by (intro exI [of _ rows]) (simp add: sn csv')
      qed
    qed
  qed
qed

















end
